theory Spec2Isabelle
  imports Complex_Main "HOL-Library.Multiset" "HOL-Library.Log_Nat"
begin

section \<open>ALFS: a CFS-style scheduler on an indexed min-heap\<close>

text \<open>
  A shallow embedding of the scheduler core of the repository: \<^verbatim>\<open>include/alfs.h\<close>,
  \<^verbatim>\<open>src/task.c\<close>, \<^verbatim>\<open>src/cgroup.c\<close>, the heap implementation, \<^verbatim>\<open>src/scheduler.c\<close> and the
  event loop of \<^verbatim>\<open>main\<close>.

  Conventions of the embedding.
  \<^item> A \<^verbatim>\<open>Task *\<close> is an address (a natural number); the tasks themselves live in a store
    \<open>mem\<close> from addresses to \<open>Task\<close> records. The registry \<^verbatim>\<open>all_tasks\<close>, the heap array and
    the per-CPU slots hold addresses, so aliasing between them is as in the C code.
    \<^verbatim>\<open>calloc\<close> hands out the next unused address; allocation never fails.
  \<^item> The cgroup registry is the list of \<open>Cgroup\<close> records; a \<^verbatim>\<open>Cgroup *\<close> is the index of
    the record in that list (the registry does not change while a pointer is held).
  \<^item> C \<^verbatim>\<open>int\<close> fields are integers that are only copied and compared; the one narrowing
    conversion of the code (\<^verbatim>\<open>long long\<close> to \<^verbatim>\<open>int\<close>) is written out as two's-complement
    wrap-around. The \<^verbatim>\<open>long long\<close> product of \<^verbatim>\<open>refresh_cgroup_periods\<close> is the exact
    product: where it would overflow, the behaviour of the C code is undefined.
  \<^item> A finite C \<^verbatim>\<open>double\<close> is the rational number it denotes. The vruntime charge of a tick
    is computed as IEEE 754 binary64 arithmetic computes it: every operation yields the
    double nearest to the exact result, ties going to the even significand (\<open>fl\<close> below).
    The embedding holds finite doubles only: where the code would produce an infinity or a
    NaN (a division by the weight 0, a result beyond \<open>DBL_MAX\<close>) the value of the embedding
    is not the code's. The other \<^verbatim>\<open>double\<close> expressions, \<^verbatim>\<open>min_vr - 1.0\<close> of TaskUnblock and
    the microsecond counts of the quota accounting, are written without rounding.
  \<^item> C strings are \<open>string\<close>s; the identifiers of an \<open>Event\<close> already fit the 256-byte
    buffers they are copied into.
\<close>

subsection \<open>Constants and types of \<^verbatim>\<open>alfs.h\<close>\<close>

definition MAX_TASKS :: nat where "MAX_TASKS = 1024"
definition MAX_CGROUPS :: nat where "MAX_CGROUPS = 64"
definition NICE_0_WEIGHT :: int where "NICE_0_WEIGHT = 1024"
definition DEFAULT_CPU_SHARES :: int where "DEFAULT_CPU_SHARES = 1024"
definition DEFAULT_CPU_PERIOD_US :: int where "DEFAULT_CPU_PERIOD_US = 100000"
definition UNLIMITED_QUOTA :: int where "UNLIMITED_QUOTA = - 1"
definition NICE_MIN :: int where "NICE_MIN = - 20"
definition NICE_MAX :: int where "NICE_MAX = 19"

text \<open>
  The largest finite \<^verbatim>\<open>double\<close>, \<open>2 ^ 1024 - 2 ^ 971\<close>, used by the code as a sentinel.
\<close>

definition DBL_MAX :: rat where
  "DBL_MAX = 179769313486231570814527423731704356798070567525844996598917476803157260780028538760589558632766878171540458953514382464234321326889464182768467546703537516986049910576551282076245490090389328944075868508455133942304583236903222948165808559332123348274797826204144723168738177180919299881250404026184124858368"

definition sched_prio_to_weight :: "int list" where
  "sched_prio_to_weight =
    [88761, 71755, 56483, 46273, 36291,
     29154, 23254, 18705, 14949, 11916,
     9548, 7620, 6100, 4904, 3906,
     3121, 2501, 1991, 1586, 1277,
     1024, 820, 655, 526, 423,
     335, 272, 215, 172, 137,
     110, 87, 70, 56, 45,
     36, 29, 23, 18, 15]"

datatype TaskState =
  TASK_STATE_RUNNABLE | TASK_STATE_RUNNING | TASK_STATE_BLOCKED | TASK_STATE_EXITED

datatype EventAction =
  EVENT_INVALID
  | EVENT_TASK_CREATE | EVENT_TASK_EXIT | EVENT_TASK_BLOCK | EVENT_TASK_UNBLOCK
  | EVENT_TASK_YIELD | EVENT_TASK_SETNICE | EVENT_TASK_SET_AFFINITY
  | EVENT_CGROUP_CREATE | EVENT_CGROUP_MODIFY | EVENT_CGROUP_DELETE
  | EVENT_TASK_MOVE_CGROUP | EVENT_CPU_BURST

type_synonym task_ptr = nat

record Task =
  task_id :: string
  nice :: int
  vruntime :: rat
  weight :: int
  state :: TaskState
  task_cgroup_id :: string
  cpu_affinity :: "int list"
  current_cpu :: int
  burst_remaining :: int
  heap_index :: int
  is_burst :: bool

record Cgroup =
  cgroup_id :: string
  cpu_shares :: int
  cpu_quota_us :: int
  cpu_period_us :: int
  cpu_mask :: "int list"
  quota_used :: rat
  period_start_vtime :: int

record SchedulerMeta =
  meta_preemptions :: int
  meta_migrations :: int
  runnable_tasks :: "string list"
  blocked_tasks :: "string list"

record SchedulerTick =
  vtime :: int
  schedule :: "string list"
  meta :: SchedulerMeta

record Event =
  action :: EventAction
  ev_task_id :: string
  ev_cgroup_id :: string
  new_cgroup_id :: string
  ev_nice :: int
  ev_cpu_mask :: "int list"
  ev_cpu_shares :: int
  ev_cpu_quota_us :: int
  ev_cpu_period_us :: int
  burst_duration :: int
  has_nice :: bool
  has_cpu_shares :: bool
  has_cpu_quota :: bool
  has_cpu_period :: bool
  has_cpu_mask :: bool

record TimeFrame =
  tf_vtime :: int
  events :: "Event list"

text \<open>
  The scheduler. \<open>cpu_queues\<close> holds the \<^verbatim>\<open>current_task\<close> of every CPU run queue
  (\<^verbatim>\<open>cpu_count\<close> is its length), \<open>all_tasks\<close> the registry in array order
  (\<^verbatim>\<open>task_count\<close> is its length), \<open>runnable_heap\<close> the first \<^verbatim>\<open>size\<close> slots of the heap
  array. \<open>mem\<close> and \<open>next_ptr\<close> are the task store and its allocator.
\<close>

record Scheduler =
  cpu_queues :: "task_ptr option list"
  quanta :: int
  all_tasks :: "task_ptr list"
  cgroups :: "Cgroup list"
  runnable_heap :: "task_ptr list"
  current_vtime :: int
  preemptions :: int
  migrations :: int
  mem :: "task_ptr \<Rightarrow> Task"
  next_ptr :: task_ptr

definition nice_to_weight :: "int \<Rightarrow> int" where
  "nice_to_weight n =
    (let n1 = (if n < NICE_MIN then NICE_MIN else n);
         n2 = (if n1 > NICE_MAX then NICE_MAX else n1)
     in sched_prio_to_weight ! nat (n2 - NICE_MIN))"

text \<open>
  Rounding to \<^verbatim>\<open>double\<close>. \<open>ilog2 x\<close> is the binary exponent of a positive \<open>x\<close>, the largest
  \<open>e\<close> with \<open>2 ^ e \<le> x\<close>; \<open>fl x\<close> is the multiple of the unit in the last place (53 bits of
  significand, the exponent not below that of the subnormal numbers) that is nearest to \<open>x\<close>,
  the even multiple in a tie.
\<close>

definition ilog2 :: "rat \<Rightarrow> int" where
  "ilog2 x =
    (let e0 = bitlen (fst (quotient_of x)) - bitlen (snd (quotient_of x))
     in if 2 powi e0 \<le> x then e0 else e0 - 1)"

definition round_half_even :: "rat \<Rightarrow> int" where
  "round_half_even m =
    (let n = \<lfloor>m\<rfloor>; r = m - of_int n
     in if r < 1 / 2 then n else if r > 1 / 2 then n + 1
        else if even n then n else n + 1)"

definition fl :: "rat \<Rightarrow> rat" where
  "fl x =
    (if x = 0 then 0
     else
       let e = max (ilog2 \<bar>x\<bar> - 52) (- 1074);
           n = round_half_even (\<bar>x\<bar> / 2 powi e)
       in sgn x * of_int n * 2 powi e)"

text \<open>\<^verbatim>\<open>runtime * ((double)NICE_0_WEIGHT / (double)weight)\<close>: a division and a multiplication.\<close>

definition calc_vruntime_delta :: "rat \<Rightarrow> int \<Rightarrow> rat" where
  "calc_vruntime_delta runtime w = fl (runtime * fl (of_int NICE_0_WEIGHT / of_int w))"

subsection \<open>\<^verbatim>\<open>task.c\<close>\<close>

definition task_create :: "string \<Rightarrow> int \<Rightarrow> string option \<Rightarrow> Task" where
  "task_create tid n cg =
    (let n1 = (if n < NICE_MIN then NICE_MIN else n);
         n2 = (if n1 > NICE_MAX then NICE_MAX else n1)
     in \<lparr> task_id = tid, nice = n2, vruntime = 0, weight = nice_to_weight n2,
          state = TASK_STATE_RUNNABLE,
          task_cgroup_id = (case cg of Some c \<Rightarrow> c | None \<Rightarrow> ''0''),
          cpu_affinity = [], current_cpu = - 1, burst_remaining = 0,
          heap_index = - 1, is_burst = False \<rparr>)"

definition task_set_affinity :: "Task \<Rightarrow> int list \<Rightarrow> Task" where
  "task_set_affinity t cpus = t\<lparr>cpu_affinity := cpus\<rparr>"

definition task_set_nice :: "Task \<Rightarrow> int \<Rightarrow> Task" where
  "task_set_nice t n =
    (let n1 = (if n < NICE_MIN then NICE_MIN else n);
         n2 = (if n1 > NICE_MAX then NICE_MAX else n1)
     in t\<lparr>nice := n2, weight := nice_to_weight n2\<rparr>)"

definition task_can_run_on_cpu :: "Task \<Rightarrow> int \<Rightarrow> bool" where
  "task_can_run_on_cpu t cpu =
    (if cpu_affinity t = [] then True else cpu \<in> set (cpu_affinity t))"

subsection \<open>\<^verbatim>\<open>cgroup.c\<close>\<close>

definition cgroup_create :: "string \<Rightarrow> int \<Rightarrow> int \<Rightarrow> int \<Rightarrow> int list \<Rightarrow> Cgroup" where
  "cgroup_create cid shares quota period cpus =
    \<lparr> cgroup_id = cid,
      cpu_shares = (if shares > 0 then shares else DEFAULT_CPU_SHARES),
      cpu_quota_us = quota,
      cpu_period_us = (if period > 0 then period else DEFAULT_CPU_PERIOD_US),
      cpu_mask = cpus, quota_used = 0, period_start_vtime = 0 \<rparr>"

text \<open>
  \<^verbatim>\<open>cgroup_modify\<close>: the mask argument is \<open>None\<close> for a \<^verbatim>\<open>NULL\<close> pointer; an empty array
  counts as no mask given (\<^verbatim>\<open>cpu_mask && cpu_mask_count > 0\<close>).
\<close>

definition cgroup_modify :: "Cgroup \<Rightarrow> int \<Rightarrow> int \<Rightarrow> int \<Rightarrow> int list option \<Rightarrow> Cgroup" where
  "cgroup_modify cg shares quota period cpus =
    (let cg1 = (if shares > 0 then cg\<lparr>cpu_shares := shares\<rparr> else cg);
         cg2 = (if quota \<ge> - 1 then cg1\<lparr>cpu_quota_us := quota\<rparr> else cg1);
         cg3 = (if period > 0 then cg2\<lparr>cpu_period_us := period\<rparr> else cg2)
     in case cpus of
          Some (c # cs) \<Rightarrow> cg3\<lparr>cpu_mask := c # cs\<rparr>
        | _ \<Rightarrow> cg3)"

definition cgroup_allows_cpu :: "Cgroup \<Rightarrow> int \<Rightarrow> bool" where
  "cgroup_allows_cpu cg cpu =
    (if cpu_mask cg = [] then True else cpu \<in> set (cpu_mask cg))"

definition cgroup_has_quota :: "Cgroup \<Rightarrow> bool" where
  "cgroup_has_quota cg =
    (if cpu_quota_us cg < 0 then True else quota_used cg < of_int (cpu_quota_us cg))"

definition cgroup_account_runtime :: "Cgroup \<Rightarrow> rat \<Rightarrow> Cgroup" where
  "cgroup_account_runtime cg runtime =
    (if cpu_quota_us cg > 0 \<and> runtime > 0
     then cg\<lparr>quota_used := quota_used cg + runtime\<rparr> else cg)"

definition cgroup_reset_period :: "Cgroup \<Rightarrow> int \<Rightarrow> Cgroup" where
  "cgroup_reset_period cg vt = cg\<lparr>quota_used := 0, period_start_vtime := vt\<rparr>"

subsection \<open>The indexed min-heap\<close>

text \<open>
  A heap state is the task store together with the used part of the heap array. Every
  operation that moves a task also writes the task's \<open>heap_index\<close>.
\<close>

type_synonym heap_state = "(task_ptr \<Rightarrow> Task) \<times> task_ptr list"

definition parent :: "nat \<Rightarrow> nat" where "parent i = (i - 1) div 2"
definition left_child :: "nat \<Rightarrow> nat" where "left_child i = 2 * i + 1"
definition right_child :: "nat \<Rightarrow> nat" where "right_child i = 2 * i + 2"

definition set_heap_index :: "(task_ptr \<Rightarrow> Task) \<Rightarrow> task_ptr \<Rightarrow> int \<Rightarrow> (task_ptr \<Rightarrow> Task)" where
  "set_heap_index m p i = m(p := (m p)\<lparr>heap_index := i\<rparr>)"

definition heap_swap :: "heap_state \<Rightarrow> nat \<Rightarrow> nat \<Rightarrow> heap_state" where
  "heap_swap hs i j =
    (let m = fst hs; h = snd hs;
         temp = h ! i;
         h1 = h[i := h ! j];
         h2 = h1[j := temp];
         m1 = set_heap_index m (h2 ! i) (int i);
         m2 = set_heap_index m1 (h2 ! j) (int j)
     in (m2, h2))"

lemma length_heap_swap [simp]: "length (snd (heap_swap hs i j)) = length (snd hs)"
  by (simp add: heap_swap_def Let_def)

function heap_bubble_up :: "heap_state \<Rightarrow> nat \<Rightarrow> heap_state" where
  "heap_bubble_up hs idx =
    (if idx > 0 \<and> vruntime (fst hs (snd hs ! parent idx)) > vruntime (fst hs (snd hs ! idx))
     then heap_bubble_up (heap_swap hs idx (parent idx)) (parent idx)
     else hs)"
  by pat_completeness auto
termination
  by (relation "measure (\<lambda>(hs, idx). idx)") (auto simp: parent_def)

function heap_bubble_down :: "heap_state \<Rightarrow> nat \<Rightarrow> heap_state" where
  "heap_bubble_down hs idx =
    (let m = fst hs; h = snd hs;
         min_idx0 = idx;
         min_idx1 = (if left_child idx < length h \<and>
                        vruntime (m (h ! left_child idx)) < vruntime (m (h ! min_idx0))
                     then left_child idx else min_idx0);
         min_idx = (if right_child idx < length h \<and>
                       vruntime (m (h ! right_child idx)) < vruntime (m (h ! min_idx1))
                    then right_child idx else min_idx1)
     in if min_idx \<noteq> idx
        then heap_bubble_down (heap_swap hs idx min_idx) min_idx
        else hs)"
  by pat_completeness auto
termination
  by (relation "measure (\<lambda>(hs, idx). length (snd hs) - idx)")
     (auto simp: left_child_def right_child_def split: if_splits)

definition heap_insert :: "heap_state \<Rightarrow> task_ptr \<Rightarrow> heap_state" where
  "heap_insert hs t =
    (let m = fst hs; h = snd hs; idx = length h
     in heap_bubble_up (set_heap_index m t (int idx), h @ [t]) idx)"

definition heap_extract_min :: "heap_state \<Rightarrow> task_ptr option \<times> heap_state" where
  "heap_extract_min hs =
    (let m = fst hs; h = snd hs
     in if h = [] then (None, hs)
        else
          let min_task = h ! 0;
              m1 = set_heap_index m min_task (- 1);
              sz = length h - 1
          in if sz > 0
             then
               let h1 = (take sz h)[0 := h ! sz];
                   m2 = set_heap_index m1 (h1 ! 0) 0
               in (Some min_task, heap_bubble_down (m2, h1) 0)
             else (Some min_task, (m1, take sz h)))"

definition heap_update :: "heap_state \<Rightarrow> task_ptr \<Rightarrow> heap_state" where
  "heap_update hs t =
    (let m = fst hs; h = snd hs
     in if heap_index (m t) < 0 \<or> heap_index (m t) \<ge> int (length h) then hs
        else
          let idx = nat (heap_index (m t))
          in if idx > 0 \<and> vruntime (m (h ! parent idx)) > vruntime (m t)
             then heap_bubble_up hs idx
             else heap_bubble_down hs idx)"

definition heap_remove :: "heap_state \<Rightarrow> task_ptr \<Rightarrow> int \<times> heap_state" where
  "heap_remove hs t =
    (let m = fst hs; h = snd hs
     in if heap_index (m t) < 0 \<or> heap_index (m t) \<ge> int (length h) then (- 1, hs)
        else
          let idx = nat (heap_index (m t));
              m1 = set_heap_index m t (- 1);
              sz = length h - 1
          in if idx < sz
             then
               let h1 = (take sz h)[idx := h ! sz];
                   m2 = set_heap_index m1 (h1 ! idx) (int idx)
               in if idx > 0 \<and> vruntime (m2 (h1 ! parent idx)) > vruntime (m2 (h1 ! idx))
                  then (0, heap_bubble_up (m2, h1) idx)
                  else (0, heap_bubble_down (m2, h1) idx)
             else (0, (m1, take sz h)))"

definition heap_is_empty :: "task_ptr list \<Rightarrow> bool" where
  "heap_is_empty h = (h = [])"

subsection \<open>\<^verbatim>\<open>scheduler.c\<close>: helpers\<close>

definition hs_of :: "Scheduler \<Rightarrow> heap_state" where
  "hs_of s = (mem s, runnable_heap s)"

definition set_hs :: "Scheduler \<Rightarrow> heap_state \<Rightarrow> Scheduler" where
  "set_hs s hs = s\<lparr>mem := fst hs, runnable_heap := snd hs\<rparr>"

text \<open>\<^verbatim>\<open>heap_insert(sched->runnable_heap, task)\<close>.\<close>

definition sched_heap_insert :: "Scheduler \<Rightarrow> task_ptr \<Rightarrow> Scheduler" where
  "sched_heap_insert s p = set_hs s (heap_insert (hs_of s) p)"

text \<open>Writing through a \<^verbatim>\<open>Task *\<close>.\<close>

definition upd_task :: "Scheduler \<Rightarrow> task_ptr \<Rightarrow> (Task \<Rightarrow> Task) \<Rightarrow> Scheduler" where
  "upd_task s p f = s\<lparr>mem := (mem s)(p := f (mem s p))\<rparr>"

fun find_cgroup_from :: "nat \<Rightarrow> Cgroup list \<Rightarrow> string \<Rightarrow> nat option" where
  "find_cgroup_from i [] cid = None"
| "find_cgroup_from i (c # cs) cid =
    (if cgroup_id c = cid then Some i else find_cgroup_from (Suc i) cs cid)"

definition scheduler_find_cgroup :: "Scheduler \<Rightarrow> string \<Rightarrow> nat option" where
  "scheduler_find_cgroup s cid = find_cgroup_from 0 (cgroups s) cid"

definition scheduler_find_task :: "Scheduler \<Rightarrow> string \<Rightarrow> task_ptr option" where
  "scheduler_find_task s tid = List.find (\<lambda>p. task_id (mem s p) = tid) (all_tasks s)"

definition can_task_run_on_cpu :: "Scheduler \<Rightarrow> Task \<Rightarrow> int \<Rightarrow> bool" where
  "can_task_run_on_cpu s t cpu =
    (if \<not> task_can_run_on_cpu t cpu then False
     else if task_cgroup_id t \<noteq> [] then
       (case scheduler_find_cgroup s (task_cgroup_id t) of
          Some c \<Rightarrow> (if \<not> cgroup_allows_cpu (cgroups s ! c) cpu then False else True)
        | None \<Rightarrow> True)
     else True)"

text \<open>The loop bodies of \<^verbatim>\<open>get_min_vruntime\<close> and \<^verbatim>\<open>get_max_vruntime\<close> for one task.\<close>

definition min_vr_step :: "Task \<Rightarrow> rat \<Rightarrow> rat" where
  "min_vr_step t min_vr =
    (if state t = TASK_STATE_RUNNABLE \<or> state t = TASK_STATE_RUNNING
     then (if vruntime t < min_vr then vruntime t else min_vr)
     else min_vr)"

definition max_vr_step :: "Task \<Rightarrow> rat \<Rightarrow> rat" where
  "max_vr_step t max_vr =
    (if state t = TASK_STATE_RUNNABLE \<or> state t = TASK_STATE_RUNNING
     then (if vruntime t > max_vr then vruntime t else max_vr)
     else max_vr)"

definition get_min_vruntime :: "Scheduler \<Rightarrow> rat" where
  "get_min_vruntime s =
    (let min_vr = fold (\<lambda>p acc. min_vr_step (mem s p) acc) (all_tasks s) DBL_MAX
     in if min_vr = DBL_MAX then 0 else min_vr)"

definition get_max_vruntime :: "Scheduler \<Rightarrow> rat" where
  "get_max_vruntime s = fold (\<lambda>p acc. max_vr_step (mem s p) acc) (all_tasks s) 0"

text \<open>
  C integer division truncates towards zero; the conversion of a \<^verbatim>\<open>long long\<close> to \<^verbatim>\<open>int\<close>
  keeps the low 32 bits, read as two's complement.
\<close>

definition c_div :: "int \<Rightarrow> int \<Rightarrow> int" where
  "c_div a b = sgn a * sgn b * (\<bar>a\<bar> div \<bar>b\<bar>)"

definition int_of_llong :: "int \<Rightarrow> int" where
  "int_of_llong x = (x + 2 ^ 31) mod 2 ^ 32 - 2 ^ 31"

definition get_effective_task_weight :: "Scheduler \<Rightarrow> Task \<Rightarrow> int" where
  "get_effective_task_weight s t =
    (let w0 = weight t;
         w1 = (if task_cgroup_id t \<noteq> [] then
                 (case scheduler_find_cgroup s (task_cgroup_id t) of
                    Some c \<Rightarrow>
                      (if cpu_shares (cgroups s ! c) > 0
                       then c_div (w0 * cpu_shares (cgroups s ! c)) DEFAULT_CPU_SHARES
                       else w0)
                  | None \<Rightarrow> w0)
               else w0);
         w2 = (if w1 < 1 then 1 else w1)
     in int_of_llong w2)"

text \<open>The loop body of \<^verbatim>\<open>rebuild_runnable_heap\<close> for the task at address \<open>p\<close>.\<close>

definition rebuild_step :: "task_ptr \<Rightarrow> Scheduler \<Rightarrow> Scheduler" where
  "rebuild_step p s =
    (let s1 = upd_task s p (\<lambda>t. t\<lparr>heap_index := - 1\<rparr>)
     in if state (mem s1 p) = TASK_STATE_RUNNABLE
        then sched_heap_insert s1 p
        else s1)"

definition rebuild_runnable_heap :: "Scheduler \<Rightarrow> Scheduler" where
  "rebuild_runnable_heap s = fold rebuild_step (all_tasks s) (s\<lparr>runnable_heap := []\<rparr>)"

text \<open>The loop body of \<^verbatim>\<open>refresh_cgroup_periods\<close> for one cgroup.\<close>

definition refresh_cgroup :: "int \<Rightarrow> int \<Rightarrow> Cgroup \<Rightarrow> Cgroup" where
  "refresh_cgroup tick_us vt cg =
    (if cpu_period_us cg \<le> 0 then cg
     else if vt < period_start_vtime cg then cgroup_reset_period cg vt
     else
       let elapsed_ticks = vt - period_start_vtime cg;
           elapsed_us = elapsed_ticks * tick_us
       in if elapsed_us \<ge> cpu_period_us cg then cgroup_reset_period cg vt
          else cg)"

definition refresh_cgroup_periods :: "Scheduler \<Rightarrow> int \<Rightarrow> Scheduler" where
  "refresh_cgroup_periods s vt =
    (let tick_us0 = quanta s * 1000;
         tick_us = (if tick_us0 \<le> 0 then 1000 else tick_us0)
     in s\<lparr>cgroups := map (refresh_cgroup tick_us vt) (cgroups s)\<rparr>)"

text \<open>
  The per-tick tally of runtime already committed per cgroup: the parallel arrays
  \<^verbatim>\<open>planned_cgroups\<close> and \<^verbatim>\<open>planned_runtime_us\<close> as a list of pairs.
\<close>

type_synonym planned = "(nat \<times> rat) list"

fun get_planned_runtime_for_cgroup :: "planned \<Rightarrow> nat \<Rightarrow> rat" where
  "get_planned_runtime_for_cgroup [] target = 0"
| "get_planned_runtime_for_cgroup ((c, r) # ps) target =
    (if c = target then r else get_planned_runtime_for_cgroup ps target)"

fun add_planned_from :: "planned \<Rightarrow> nat \<Rightarrow> rat \<Rightarrow> planned option" where
  "add_planned_from [] target delta_us = None"
| "add_planned_from ((c, r) # ps) target delta_us =
    (if c = target then Some ((c, r + delta_us) # ps)
     else map_option (\<lambda>ps'. (c, r) # ps') (add_planned_from ps target delta_us))"

definition add_planned_runtime_for_cgroup :: "planned \<Rightarrow> nat \<Rightarrow> rat \<Rightarrow> planned" where
  "add_planned_runtime_for_cgroup pl target delta_us =
    (case add_planned_from pl target delta_us of
       Some pl' \<Rightarrow> pl'
     | None \<Rightarrow> if length pl < MAX_CGROUPS then pl @ [(target, delta_us)] else pl)"

subsection \<open>Heap operations keep the array length\<close>

text \<open>These facts are needed to show that the selection loop below terminates.\<close>

declare heap_bubble_up.simps [simp del]
declare heap_bubble_down.simps [simp del]

lemma length_heap_bubble_up: "length (snd (heap_bubble_up hs idx)) = length (snd hs)"
proof (induction hs idx rule: heap_bubble_up.induct)
  case (1 hs idx)
  show ?case
    by (subst heap_bubble_up.simps) (simp add: 1)
qed

lemma length_heap_bubble_down: "length (snd (heap_bubble_down hs idx)) = length (snd hs)"
proof (induction hs idx rule: heap_bubble_down.induct)
  case (1 hs idx)
  show ?case
    by (subst heap_bubble_down.simps) (simp add: 1 Let_def)
qed

lemma length_heap_extract_min:
  "snd hs \<noteq> [] \<Longrightarrow> length (snd (snd (heap_extract_min hs))) < length (snd hs)"
  by (simp add: heap_extract_min_def Let_def length_heap_bubble_down)

subsection \<open>\<^verbatim>\<open>scheduler.c\<close>: selecting a task for one CPU\<close>

text \<open>
  The quota test of the loop body of \<^verbatim>\<open>pick_task_for_cpu\<close>: true when the candidate is
  deferred because its cgroup has no quota left, counting the runtime already planned for
  the cgroup on earlier CPUs of this tick.
\<close>

definition quota_defers :: "Scheduler \<Rightarrow> planned \<Rightarrow> rat \<Rightarrow> Task \<Rightarrow> bool" where
  "quota_defers s pl tick_runtime_us t =
    (if task_cgroup_id t \<noteq> [] then
       (case scheduler_find_cgroup s (task_cgroup_id t) of
          Some c \<Rightarrow>
            (if \<not> cgroup_has_quota (cgroups s ! c) then True
             else if cpu_quota_us (cgroups s ! c) \<ge> 0 then
               (let planned = get_planned_runtime_for_cgroup pl c;
                    projected = quota_used (cgroups s ! c) + planned + tick_runtime_us
                in projected > of_int (cpu_quota_us (cgroups s ! c)))
             else False)
        | None \<Rightarrow> False)
     else False)"

text \<open>
  The \<^verbatim>\<open>while\<close> loop of \<^verbatim>\<open>pick_task_for_cpu\<close>: the result is the selected task, the
  scheduler with the candidates extracted so far removed from the heap, and the
  \<^verbatim>\<open>deferred\<close> array.
\<close>

function pick_loop ::
  "Scheduler \<Rightarrow> int \<Rightarrow> planned \<Rightarrow> rat \<Rightarrow> task_ptr list
    \<Rightarrow> task_ptr option \<times> Scheduler \<times> task_ptr list" where
  "pick_loop s cpu pl tick_runtime_us deferred =
    (if heap_is_empty (runnable_heap s) then (None, s, deferred)
     else
       (case fst (heap_extract_min (hs_of s)) of
          None \<Rightarrow> (None, set_hs s (snd (heap_extract_min (hs_of s))), deferred)
        | Some candidate \<Rightarrow>
            (let s1 = set_hs s (snd (heap_extract_min (hs_of s)))
             in if \<not> can_task_run_on_cpu s1 (mem s1 candidate) cpu
                then pick_loop s1 cpu pl tick_runtime_us (deferred @ [candidate])
                else if quota_defers s1 pl tick_runtime_us (mem s1 candidate)
                then pick_loop s1 cpu pl tick_runtime_us (deferred @ [candidate])
                else (Some candidate, s1, deferred))))"
  by pat_completeness auto
termination
  by (relation "measure (\<lambda>(s, cpu, pl, tick_runtime_us, deferred). length (runnable_heap s))")
     (auto simp: heap_is_empty_def set_hs_def hs_of_def
           intro: length_heap_extract_min [of "(m, h)" for m h, simplified])

declare pick_loop.simps [simp del]

definition pick_task_for_cpu ::
  "Scheduler \<Rightarrow> int \<Rightarrow> planned \<Rightarrow> rat \<Rightarrow> task_ptr option \<times> Scheduler \<times> planned" where
  "pick_task_for_cpu s cpu pl tick_runtime_us =
    (let r = pick_loop s cpu pl tick_runtime_us [];
         selected = fst r;
         s1 = fst (snd r);
         deferred = snd (snd r);
         s2 = fold (\<lambda>p s'. sched_heap_insert s' p) deferred s1;
         pl' = (case selected of
                  None \<Rightarrow> pl
                | Some p \<Rightarrow>
                    (if task_cgroup_id (mem s2 p) \<noteq> [] then
                       (case scheduler_find_cgroup s2 (task_cgroup_id (mem s2 p)) of
                          Some c \<Rightarrow>
                            (if cpu_quota_us (cgroups s2 ! c) \<ge> 0
                             then add_planned_runtime_for_cgroup pl c tick_runtime_us
                             else pl)
                        | None \<Rightarrow> pl)
                     else pl))
     in (selected, s2, pl'))"

subsection \<open>\<^verbatim>\<open>scheduler.c\<close>: initialisation and the registries\<close>

text \<open>What an unallocated cell of the task store holds; it is never read.\<close>

definition null_task :: Task where
  "null_task = task_create [] 0 None"

definition scheduler_init :: "nat \<Rightarrow> int \<Rightarrow> Scheduler" where
  "scheduler_init cpu_count q =
    \<lparr> cpu_queues = replicate cpu_count None,
      quanta = (if q > 0 then q else 1),
      all_tasks = [], cgroups = [], runnable_heap = [],
      current_vtime = 0, preemptions = 0, migrations = 0,
      mem = (\<lambda>p. null_task), next_ptr = 0 \<rparr>"

definition scheduler_add_task :: "Scheduler \<Rightarrow> task_ptr \<Rightarrow> int \<times> Scheduler" where
  "scheduler_add_task s p =
    (if length (all_tasks s) \<ge> MAX_TASKS then (- 1, s)
     else
       let s1 = s\<lparr>all_tasks := all_tasks s @ [p]\<rparr>
       in if state (mem s1 p) = TASK_STATE_RUNNABLE
          then (0, sched_heap_insert s1 p)
          else (0, s1))"

fun find_task_index_from :: "nat \<Rightarrow> (task_ptr \<Rightarrow> Task) \<Rightarrow> task_ptr list \<Rightarrow> string \<Rightarrow> nat option" where
  "find_task_index_from i m [] tid = None"
| "find_task_index_from i m (p # ps) tid =
    (if task_id (m p) = tid then Some i else find_task_index_from (Suc i) m ps tid)"

definition scheduler_remove_task :: "Scheduler \<Rightarrow> string \<Rightarrow> int \<times> Scheduler" where
  "scheduler_remove_task s tid =
    (case find_task_index_from 0 (mem s) (all_tasks s) tid of
       None \<Rightarrow> (- 1, s)
     | Some i \<Rightarrow>
         (let task = all_tasks s ! i;
              s1 = (if heap_index (mem s task) \<ge> 0
                    then set_hs s (snd (heap_remove (hs_of s) task)) else s);
              s2 = s1\<lparr>cpu_queues :=
                     map (\<lambda>q. if q = Some task then None else q) (cpu_queues s1)\<rparr>
          in (0, s2\<lparr>all_tasks := butlast ((all_tasks s2)[i := last (all_tasks s2)])\<rparr>)))"

definition scheduler_add_cgroup :: "Scheduler \<Rightarrow> Cgroup \<Rightarrow> int \<times> Scheduler" where
  "scheduler_add_cgroup s cg =
    (if length (cgroups s) \<ge> MAX_CGROUPS then (- 1, s)
     else (0, s\<lparr>cgroups := cgroups s @ [cg]\<rparr>))"

text \<open>The inner loop body of \<^verbatim>\<open>scheduler_remove_cgroup\<close>: a member task is moved to \<open>''0''\<close>.\<close>

definition reassign_step :: "string \<Rightarrow> task_ptr \<Rightarrow> Scheduler \<Rightarrow> Scheduler" where
  "reassign_step cid p s =
    (if task_cgroup_id (mem s p) = cid
     then upd_task s p (\<lambda>t. t\<lparr>task_cgroup_id := ''0''\<rparr>)
     else s)"

definition scheduler_remove_cgroup :: "Scheduler \<Rightarrow> string \<Rightarrow> int \<times> Scheduler" where
  "scheduler_remove_cgroup s cid =
    (case scheduler_find_cgroup s cid of
       None \<Rightarrow> (- 1, s)
     | Some i \<Rightarrow>
         (let s1 = fold (reassign_step cid) (all_tasks s) s
          in (0, s1\<lparr>cgroups := butlast ((cgroups s1)[i := last (cgroups s1)])\<rparr>)))"

subsection \<open>\<^verbatim>\<open>scheduler.c\<close>: the event dispatcher\<close>

text \<open>The result is the return value of the C function and the scheduler after the event.\<close>

definition scheduler_process_event :: "Scheduler \<Rightarrow> Event \<Rightarrow> int \<times> Scheduler" where
  "scheduler_process_event s e =
    (case action e of
       EVENT_TASK_CREATE \<Rightarrow>
         (let max_vr = get_max_vruntime s;
              n = (if has_nice e then ev_nice e else 0);
              t0 = task_create (ev_task_id e) n
                     (if ev_cgroup_id e \<noteq> [] then Some (ev_cgroup_id e) else None);
              t1 = t0\<lparr>vruntime := max_vr\<rparr>;
              t2 = (if has_cpu_mask e then task_set_affinity t1 (ev_cpu_mask e) else t1);
              p = next_ptr s;
              s1 = s\<lparr>mem := (mem s)(p := t2), next_ptr := Suc p\<rparr>
          in (0, snd (scheduler_add_task s1 p)))
     | EVENT_TASK_EXIT \<Rightarrow>
         (case scheduler_find_task s (ev_task_id e) of
            Some p \<Rightarrow>
              (let s1 = upd_task s p (\<lambda>t. t\<lparr>state := TASK_STATE_EXITED\<rparr>)
               in (0, snd (scheduler_remove_task s1 (ev_task_id e))))
          | None \<Rightarrow> (0, s))
     | EVENT_TASK_BLOCK \<Rightarrow>
         (case scheduler_find_task s (ev_task_id e) of
            Some p \<Rightarrow>
              (let s1 = upd_task s p (\<lambda>t. t\<lparr>state := TASK_STATE_BLOCKED\<rparr>);
                   s2 = (if heap_index (mem s1 p) \<ge> 0
                         then set_hs s1 (snd (heap_remove (hs_of s1) p)) else s1);
                   s3 = (if current_cpu (mem s2 p) \<ge> 0
                         then upd_task
                                (s2\<lparr>cpu_queues :=
                                      (cpu_queues s2)[nat (current_cpu (mem s2 p)) := None]\<rparr>)
                                p (\<lambda>t. t\<lparr>current_cpu := - 1\<rparr>)
                         else s2)
               in (0, s3))
          | None \<Rightarrow> (0, s))
     | EVENT_TASK_UNBLOCK \<Rightarrow>
         (case scheduler_find_task s (ev_task_id e) of
            Some p \<Rightarrow>
              (if state (mem s p) = TASK_STATE_BLOCKED then
                 (let s1 = upd_task s p (\<lambda>t. t\<lparr>state := TASK_STATE_RUNNABLE\<rparr>);
                      min_vr = get_min_vruntime s1;
                      s2 = (if vruntime (mem s1 p) < min_vr - 1
                            then upd_task s1 p (\<lambda>t. t\<lparr>vruntime := min_vr - 1\<rparr>) else s1)
                  in (0, sched_heap_insert s2 p))
               else (0, s))
          | None \<Rightarrow> (0, s))
     | EVENT_TASK_YIELD \<Rightarrow>
         (case scheduler_find_task s (ev_task_id e) of
            Some p \<Rightarrow>
              (let s1 = upd_task s p (\<lambda>t. t\<lparr>vruntime := get_max_vruntime s\<rparr>)
               in if heap_index (mem s1 p) \<ge> 0
                  then (0, set_hs s1 (heap_update (hs_of s1) p))
                  else (0, s1))
          | None \<Rightarrow> (0, s))
     | EVENT_TASK_SETNICE \<Rightarrow>
         (case scheduler_find_task s (ev_task_id e) of
            Some p \<Rightarrow> (0, upd_task s p (\<lambda>t. task_set_nice t (ev_nice e)))
          | None \<Rightarrow> (0, s))
     | EVENT_TASK_SET_AFFINITY \<Rightarrow>
         (case scheduler_find_task s (ev_task_id e) of
            Some p \<Rightarrow> (0, upd_task s p (\<lambda>t. task_set_affinity t (ev_cpu_mask e)))
          | None \<Rightarrow> (0, s))
     | EVENT_CGROUP_CREATE \<Rightarrow>
         (let shares = (if has_cpu_shares e then ev_cpu_shares e else DEFAULT_CPU_SHARES);
              quota = (if has_cpu_quota e then ev_cpu_quota_us e else UNLIMITED_QUOTA);
              period = (if has_cpu_period e then ev_cpu_period_us e else DEFAULT_CPU_PERIOD_US);
              cg = cgroup_create (ev_cgroup_id e) shares quota period (ev_cpu_mask e)
          in (0, snd (scheduler_add_cgroup s (cg\<lparr>period_start_vtime := current_vtime s\<rparr>))))
     | EVENT_CGROUP_MODIFY \<Rightarrow>
         (case scheduler_find_cgroup s (ev_cgroup_id e) of
            Some c \<Rightarrow>
              (let shares = (if has_cpu_shares e then ev_cpu_shares e else - 1);
                   quota = (if has_cpu_quota e then ev_cpu_quota_us e else - 2);
                   period = (if has_cpu_period e then ev_cpu_period_us e else - 2);
                   cg1 = cgroup_modify (cgroups s ! c) shares quota period
                           (if has_cpu_mask e then Some (ev_cpu_mask e) else None);
                   cg2 = (if has_cpu_period e \<and> ev_cpu_period_us e > 0
                          then cgroup_reset_period cg1 (current_vtime s) else cg1)
               in (0, s\<lparr>cgroups := (cgroups s)[c := cg2]\<rparr>))
          | None \<Rightarrow> (0, s))
     | EVENT_CGROUP_DELETE \<Rightarrow> (0, snd (scheduler_remove_cgroup s (ev_cgroup_id e)))
     | EVENT_TASK_MOVE_CGROUP \<Rightarrow>
         (case scheduler_find_task s (ev_task_id e) of
            Some p \<Rightarrow> (0, upd_task s p (\<lambda>t. t\<lparr>task_cgroup_id := new_cgroup_id e\<rparr>))
          | None \<Rightarrow> (0, s))
     | EVENT_CPU_BURST \<Rightarrow>
         (case scheduler_find_task s (ev_task_id e) of
            Some p \<Rightarrow>
              (0, upd_task s p (\<lambda>t. t\<lparr>is_burst := True, burst_remaining := burst_duration e\<rparr>))
          | None \<Rightarrow> (0, s))
     | EVENT_INVALID \<Rightarrow> (- 1, s))"

subsection \<open>\<^verbatim>\<open>scheduler.c\<close>: one tick\<close>

text \<open>
  The first loop of \<^verbatim>\<open>scheduler_tick\<close> treats the task \<open>p\<close> that ran on a CPU in three
  steps: the vruntime charge (skipped in a burst), the quota charge of the task's cgroup,
  and the burst countdown.
\<close>

definition charge_vruntime :: "Scheduler \<Rightarrow> task_ptr \<Rightarrow> Scheduler" where
  "charge_vruntime s p =
    (if \<not> is_burst (mem s p)
     then let effective_weight = get_effective_task_weight s (mem s p)
          in upd_task s p
               (\<lambda>t. t\<lparr>vruntime := fl (vruntime t +
                  calc_vruntime_delta (of_int (quanta s)) effective_weight)\<rparr>)
     else s)"

definition charge_quota :: "Scheduler \<Rightarrow> task_ptr \<Rightarrow> Scheduler" where
  "charge_quota s p =
    (if task_cgroup_id (mem s p) \<noteq> [] then
       (case scheduler_find_cgroup s (task_cgroup_id (mem s p)) of
          Some c \<Rightarrow>
            (let runtime_us = of_int (quanta s) * 1000
             in s\<lparr>cgroups := (cgroups s)
                   [c := cgroup_account_runtime (cgroups s ! c) runtime_us]\<rparr>)
        | None \<Rightarrow> s)
     else s)"

definition burst_countdown :: "Scheduler \<Rightarrow> task_ptr \<Rightarrow> Scheduler" where
  "burst_countdown s p =
    (if is_burst (mem s p) \<and> burst_remaining (mem s p) > 0 then
       (let s1 = upd_task s p (\<lambda>t. t\<lparr>burst_remaining := burst_remaining t - 1\<rparr>)
        in if burst_remaining (mem s1 p) = 0
           then upd_task s1 p (\<lambda>t. t\<lparr>is_burst := False\<rparr>)
           else s1)
     else s)"

text \<open>
  The body of the first loop of \<^verbatim>\<open>scheduler_tick\<close> for CPU \<open>i\<close>: charge the task that ran
  on the CPU, count its burst down, make it runnable again and clear the slot.
\<close>

definition account_cpu :: "Scheduler \<Rightarrow> nat \<Rightarrow> Scheduler" where
  "account_cpu s i =
    (let s1 =
       (case cpu_queues s ! i of
          None \<Rightarrow> s
        | Some p \<Rightarrow>
            (if state (mem s p) = TASK_STATE_RUNNING
             then upd_task (burst_countdown (charge_quota (charge_vruntime s p) p) p) p
                    (\<lambda>t. t\<lparr>state := TASK_STATE_RUNNABLE\<rparr>)
             else s))
     in s1\<lparr>cpu_queues := (cpu_queues s1)[i := None]\<rparr>)"

definition account_running :: "Scheduler \<Rightarrow> Scheduler" where
  "account_running s = fold (\<lambda>i s'. account_cpu s' i) [0..<length (cpu_queues s)] s"

text \<open>The state of the second loop: the scheduler, the planned tally, \<^verbatim>\<open>assigned\<close> and
  the schedule filled so far.\<close>

record TickLoop =
  tl_sched :: Scheduler
  tl_planned :: planned
  tl_assigned :: "bool list"
  tl_schedule :: "string list"

fun mark_assigned :: "task_ptr list \<Rightarrow> bool list \<Rightarrow> task_ptr \<Rightarrow> bool list" where
  "mark_assigned (q # qs) (b # bs) best =
    (if q = best then True # bs else b # mark_assigned qs bs best)"
| "mark_assigned qs bs best = bs"

text \<open>The body of the second loop of \<^verbatim>\<open>scheduler_tick\<close> for CPU \<open>cpu\<close>.\<close>

definition schedule_cpu :: "task_ptr option list \<Rightarrow> rat \<Rightarrow> TickLoop \<Rightarrow> nat \<Rightarrow> TickLoop" where
  "schedule_cpu previous_tasks tick_runtime_us lp cpu =
    (let previous = previous_tasks ! cpu;
         r = pick_task_for_cpu (tl_sched lp) (int cpu) (tl_planned lp) tick_runtime_us;
         s = fst (snd r);
         pl = snd (snd r)
     in case fst r of
          Some best \<Rightarrow>
            (let assigned = mark_assigned (all_tasks s) (tl_assigned lp) best;
                 s1 = (case previous of
                         Some prev \<Rightarrow>
                           (if prev \<noteq> best then
                              (let s' = s\<lparr>preemptions := preemptions s + 1\<rparr>
                               in if state (mem s' prev) = TASK_STATE_RUNNING
                                  then upd_task s' prev (\<lambda>t. t\<lparr>state := TASK_STATE_RUNNABLE\<rparr>)
                                  else s')
                            else s)
                       | None \<Rightarrow> s);
                 s2 = (if current_cpu (mem s1 best) \<ge> 0 \<and> current_cpu (mem s1 best) \<noteq> int cpu
                       then s1\<lparr>migrations := migrations s1 + 1\<rparr> else s1);
                 s3 = upd_task s2 best
                        (\<lambda>t. t\<lparr>current_cpu := int cpu, state := TASK_STATE_RUNNING\<rparr>);
                 s4 = s3\<lparr>cpu_queues := (cpu_queues s3)[cpu := Some best]\<rparr>
             in \<lparr> tl_sched = s4, tl_planned = pl, tl_assigned = assigned,
                  tl_schedule = tl_schedule lp @ [task_id (mem s4 best)] \<rparr>)
        | None \<Rightarrow>
            \<lparr> tl_sched = s, tl_planned = pl, tl_assigned = tl_assigned lp,
              tl_schedule = tl_schedule lp @ [''idle''] \<rparr>)"

text \<open>The second loop of \<^verbatim>\<open>scheduler_tick\<close>, started with an empty tally.\<close>
definition select_all ::
  "task_ptr option list \<Rightarrow> rat \<Rightarrow> Scheduler \<Rightarrow> TickLoop" where
  "select_all previous_tasks tick_runtime_us s =
    fold (\<lambda>cpu lp. schedule_cpu previous_tasks tick_runtime_us lp cpu)
      [0..<length (cpu_queues s)]
      \<lparr> tl_sched = s, tl_planned = [],
        tl_assigned = replicate (length (all_tasks s)) False,
        tl_schedule = [] \<rparr>"

text \<open>The loop body of the epilogue of \<^verbatim>\<open>scheduler_tick\<close> for registry index \<open>i\<close>.\<close>

definition clear_step :: "bool list \<Rightarrow> nat \<Rightarrow> Scheduler \<Rightarrow> Scheduler" where
  "clear_step assigned i s =
    (let p = all_tasks s ! i
     in if \<not> assigned ! i \<and> state (mem s p) = TASK_STATE_RUNNABLE
        then upd_task s p (\<lambda>t. t\<lparr>current_cpu := - 1\<rparr>) else s)"

definition clear_unassigned :: "Scheduler \<Rightarrow> bool list \<Rightarrow> Scheduler" where
  "clear_unassigned s assigned = fold (clear_step assigned) [0..<length (all_tasks s)] s"

definition fill_meta :: "Scheduler \<Rightarrow> SchedulerMeta" where
  "fill_meta s =
    \<lparr> meta_preemptions = preemptions s, meta_migrations = migrations s,
      runnable_tasks =
        map (\<lambda>p. task_id (mem s p))
          (filter (\<lambda>p. state (mem s p) = TASK_STATE_RUNNABLE \<or>
                        state (mem s p) = TASK_STATE_RUNNING) (all_tasks s)),
      blocked_tasks =
        map (\<lambda>p. task_id (mem s p))
          (filter (\<lambda>p. state (mem s p) = TASK_STATE_BLOCKED) (all_tasks s)) \<rparr>"

definition scheduler_tick :: "Scheduler \<Rightarrow> int \<Rightarrow> SchedulerTick \<times> Scheduler" where
  "scheduler_tick s vt =
    (let s1 = refresh_cgroup_periods
                (s\<lparr>current_vtime := vt, preemptions := 0, migrations := 0\<rparr>) vt;
         previous_tasks = cpu_queues s1;
         s2 = account_running s1;
         s3 = rebuild_runnable_heap s2;
         tick_runtime_us0 = of_int (quanta s3) * 1000;
         tick_runtime_us = (if tick_runtime_us0 < 0 then 0 else tick_runtime_us0);
         lp = select_all previous_tasks tick_runtime_us s3;
         s4 = clear_unassigned (tl_sched lp) (tl_assigned lp)
     in (\<lparr> vtime = vt, schedule = tl_schedule lp, meta = fill_meta s4 \<rparr>, s4))"

subsection \<open>The event loop of \<^verbatim>\<open>main\<close>\<close>

text \<open>
  One iteration for a parsed time frame: every event is processed in order, a failed one
  is only reported, and then the tick is run. The result is the list of return values,
  the decision record and the scheduler.
\<close>

fun process_events :: "Scheduler \<Rightarrow> Event list \<Rightarrow> int list \<times> Scheduler" where
  "process_events s [] = ([], s)"
| "process_events s (e # es) =
    (let r = scheduler_process_event s e; r' = process_events (snd r) es
     in (fst r # fst r', snd r'))"

definition run_frame :: "Scheduler \<Rightarrow> TimeFrame \<Rightarrow> int list \<times> SchedulerTick \<times> Scheduler" where
  "run_frame s tf =
    (let r = process_events s (events tf);
         t = scheduler_tick (snd r) (tf_vtime tf)
     in (fst r, fst t, snd t))"

subsection \<open>Building events\<close>

text \<open>The zero-initialised event of the tests (\<^verbatim>\<open>Event e = {0}\<close>) and the events used below.\<close>

definition event0 :: Event where
  "event0 =
    \<lparr> action = EVENT_TASK_CREATE, ev_task_id = [], ev_cgroup_id = [], new_cgroup_id = [],
      ev_nice = 0, ev_cpu_mask = [], ev_cpu_shares = 0, ev_cpu_quota_us = 0,
      ev_cpu_period_us = 0, burst_duration = 0, has_nice = False, has_cpu_shares = False,
      has_cpu_quota = False, has_cpu_period = False, has_cpu_mask = False \<rparr>"

definition task_event :: "EventAction \<Rightarrow> string \<Rightarrow> Event" where
  "task_event a tid = event0\<lparr>action := a, ev_task_id := tid\<rparr>"

definition create_in :: "string \<Rightarrow> string \<Rightarrow> Event" where
  "create_in tid cid = event0\<lparr>action := EVENT_TASK_CREATE, ev_task_id := tid, ev_cgroup_id := cid\<rparr>"

definition cgroup_event :: "EventAction \<Rightarrow> string \<Rightarrow> int \<Rightarrow> int \<Rightarrow> int \<Rightarrow> int list \<Rightarrow> Event" where
  "cgroup_event a cid shares quota period cpus =
    event0\<lparr>action := a, ev_cgroup_id := cid,
      ev_cpu_shares := shares, has_cpu_shares := True,
      ev_cpu_quota_us := quota, has_cpu_quota := True,
      ev_cpu_period_us := period, has_cpu_period := True,
      ev_cpu_mask := cpus, has_cpu_mask := True\<rparr>"

text \<open>Running a list of time frames from a given scheduler; the decisions are collected.\<close>

fun run_frames :: "Scheduler \<Rightarrow> TimeFrame list \<Rightarrow> SchedulerTick list \<times> Scheduler" where
  "run_frames s [] = ([], s)"
| "run_frames s (tf # tfs) =
    (let r = run_frame s tf; r' = run_frames (snd (snd r)) tfs
     in (fst (snd r) # fst r', snd r'))"

subsection \<open>Scenarios\<close>

text \<open>Schedulers reached from \<open>scheduler_init\<close> by events and ticks, used as concrete inputs.\<close>

definition frame :: "int \<Rightarrow> Event list \<Rightarrow> TimeFrame" where
  "frame t es = \<lparr>tf_vtime = t, events = es\<rparr>"

definition sched_with_group :: Scheduler where
  "sched_with_group =
    snd (scheduler_process_event (scheduler_init 1 1)
          (cgroup_event EVENT_CGROUP_CREATE ''g'' 2048 (- 1) 200000 []))"

definition sched_with_task :: Scheduler where
  "sched_with_task =
    snd (scheduler_process_event (scheduler_init 1 1) (task_event EVENT_TASK_CREATE ''T''))"

text \<open>One CPU, quantum 1: the task \<open>''T''\<close> has been created and selected by the first tick.\<close>

definition sched_running_task :: Scheduler where
  "sched_running_task =
    snd (snd (run_frame (scheduler_init 1 1) (frame 0 [task_event EVENT_TASK_CREATE ''T''])))"

text \<open>Then a cgroup \<open>''Z''\<close> with the given quota is created, the running task is moved into
  it and put into a burst of two ticks.\<close>

definition sched_burst_in :: "int \<Rightarrow> Scheduler" where
  "sched_burst_in quota =
    snd (process_events sched_running_task
      [cgroup_event EVENT_CGROUP_CREATE ''Z'' 1024 quota 100000 [],
       (task_event EVENT_TASK_MOVE_CGROUP ''T'')\<lparr>new_cgroup_id := ''Z''\<rparr>,
       (task_event EVENT_CPU_BURST ''T'')\<lparr>burst_duration := 2\<rparr>])"

text \<open>Or a cgroup with the given id and shares (and no quota) is created, the running task
  is moved into it, and its nice value is set.\<close>

definition sched_moved_to :: "string \<Rightarrow> int \<Rightarrow> int \<Rightarrow> Scheduler" where
  "sched_moved_to cid shares n =
    snd (process_events sched_running_task
      [cgroup_event EVENT_CGROUP_CREATE cid shares (- 1) 100000 [],
       (task_event EVENT_TASK_MOVE_CGROUP ''T'')\<lparr>new_cgroup_id := cid\<rparr>,
       (task_event EVENT_TASK_SETNICE ''T'')\<lparr>ev_nice := n\<rparr>])"

text \<open>
  Two CPUs, quantum 1: the tasks \<open>''A''\<close> and \<open>''B''\<close> are created and the first tick runs
  them on CPU 0 and CPU 1; then \<open>''A''\<close> is restricted to CPU 1 and the second tick runs.
\<close>

definition swap_run :: "SchedulerTick list \<times> Scheduler" where
  "swap_run =
    run_frames (scheduler_init 2 1)
      [frame 0 [task_event EVENT_TASK_CREATE ''A'', task_event EVENT_TASK_CREATE ''B''],
       frame 1 [(task_event EVENT_TASK_SET_AFFINITY ''A'')\<lparr>ev_cpu_mask := [1]\<rparr>]]"

text \<open>
  One CPU, quantum 5: the tasks \<open>''T1''\<close>, \<open>''T3''\<close> and \<open>''T2''\<close> are created and \<open>''T2''\<close> is
  blocked at once; three ticks run \<open>''T1''\<close>, \<open>''T3''\<close> and \<open>''T1''\<close>.
\<close>

definition sched_sleeper :: Scheduler where
  "sched_sleeper =
    snd (run_frames (scheduler_init 1 5)
      [frame 0 [task_event EVENT_TASK_CREATE ''T1'', task_event EVENT_TASK_CREATE ''T3'',
                task_event EVENT_TASK_CREATE ''T2'', task_event EVENT_TASK_BLOCK ''T2''],
       frame 1 [], frame 2 []])"

text \<open>Two CPUs, quantum 1: two tasks are created under the same id and one tick runs.\<close>

definition dup_run :: "SchedulerTick list \<times> Scheduler" where
  "dup_run =
    run_frames (scheduler_init 2 1)
      [frame 0 [task_event EVENT_TASK_CREATE ''T1'', task_event EVENT_TASK_CREATE ''T1'']]"

text \<open>
  Two CPUs, quantum 50 (a tick is 50000 us): the cgroup \<open>''G''\<close> with a quota of 50000 us per
  100000 us and the tasks \<open>''T1''\<close> and \<open>''T2''\<close> created in it.
\<close>

definition quota_sched :: Scheduler where
  "quota_sched =
    snd (process_events (scheduler_init 2 50)
      [cgroup_event EVENT_CGROUP_CREATE ''G'' 1024 50000 100000 [],
       create_in ''T1'' ''G'', create_in ''T2'' ''G''])"

text \<open>
  The same cgroup with \<open>''T1''\<close> in it and \<open>''T2''\<close> outside: the first tick runs both tasks;
  then \<open>''T2''\<close> is moved into \<open>''G''\<close> and the second tick runs.
\<close>

definition move_run :: "SchedulerTick list \<times> Scheduler" where
  "move_run =
    run_frames (scheduler_init 2 50)
      [frame 0 [cgroup_event EVENT_CGROUP_CREATE ''G'' 1024 50000 100000 [],
                create_in ''T1'' ''G'', task_event EVENT_TASK_CREATE ''T2''],
       frame 1 [(task_event EVENT_TASK_MOVE_CGROUP ''T2'')\<lparr>new_cgroup_id := ''G''\<rparr>]]"

text \<open>Two frames for \<open>quota_sched\<close>: a tick, then a new nice value for \<open>''T2''\<close> and a tick.\<close>

definition nice_frames :: "TimeFrame list" where
  "nice_frames = [frame 0 [], frame 1 [(task_event EVENT_TASK_SETNICE ''T2'')\<lparr>ev_nice := 5\<rparr>]]"

subsection \<open>Predicates used in the statements\<close>

text \<open>
  Two task records are the same task when they agree on every field but \<open>heap_index\<close>; two
  stores are in \<open>heap_frame\<close> when they hold the same task at every address.
\<close>

definition same_task :: "Task \<Rightarrow> Task \<Rightarrow> bool" where
  "same_task t t' = (t\<lparr>heap_index := 0\<rparr> = t'\<lparr>heap_index := 0\<rparr>)"

definition heap_frame :: "(task_ptr \<Rightarrow> Task) \<Rightarrow> (task_ptr \<Rightarrow> Task) \<Rightarrow> bool" where
  "heap_frame m m' = (\<forall>p. same_task (m p) (m' p))"

text \<open>
  Two schedulers hold the same registries when the task registry, the task ids, the cgroup
  ids, the number of CPUs, the quantum and the allocator agree.
\<close>

definition same_ids :: "Scheduler \<Rightarrow> Scheduler \<Rightarrow> bool" where
  "same_ids s s' =
    (all_tasks s' = all_tasks s \<and> map cgroup_id (cgroups s') = map cgroup_id (cgroups s) \<and>
     length (cpu_queues s') = length (cpu_queues s) \<and> quanta s' = quanta s \<and>
     next_ptr s' = next_ptr s \<and>
     (\<forall>p. task_id (mem s' p) = task_id (mem s p)))"

text \<open>The selected task of a CPU, if any, as a multiset.\<close>

definition opt_mset :: "'a option \<Rightarrow> 'a multiset" where
  "opt_mset x = (case x of None \<Rightarrow> {#} | Some p \<Rightarrow> {#p#})"

text \<open>The schedule entry of a CPU slot, and the slots below \<open>k\<close> holding pairwise different tasks.\<close>

definition slot_id :: "Scheduler \<Rightarrow> nat \<Rightarrow> string" where
  "slot_id s c = (case cpu_queues s ! c of None \<Rightarrow> ''idle'' | Some p \<Rightarrow> task_id (mem s p))"

definition slots_exclusive :: "Scheduler \<Rightarrow> nat \<Rightarrow> bool" where
  "slots_exclusive s k =
    (\<forall>c1 < k. \<forall>c2 < k. \<forall>p. c1 \<noteq> c2 \<longrightarrow> cpu_queues s ! c1 = Some p \<longrightarrow> cpu_queues s ! c2 \<noteq> Some p)"

text \<open>What the selection for one CPU leaves alone.\<close>

definition selection_frame :: "Scheduler \<Rightarrow> Scheduler \<Rightarrow> bool" where
  "selection_frame s s' =
    (cgroups s' = cgroups s \<and> all_tasks s' = all_tasks s \<and> quanta s' = quanta s \<and>
     (\<forall>p. task_id (mem s' p) = task_id (mem s p) \<and>
          task_cgroup_id (mem s' p) = task_cgroup_id (mem s p)))"

text \<open>
  The invariant of the second loop of a tick, before CPU \<open>k\<close> is treated: the heap holds
  distinct registered tasks, none of which occupies a CPU treated so far; the CPUs treated so
  far hold pairwise different tasks; the schedule lists their ids; the CPUs to come are
  empty.
\<close>

definition select_inv :: "task_ptr set \<Rightarrow> nat \<Rightarrow> TickLoop \<Rightarrow> nat \<Rightarrow> bool" where
  "select_inv A n lp k =
    (length (cpu_queues (tl_sched lp)) = n \<and> k \<le> n \<and>
     distinct (runnable_heap (tl_sched lp)) \<and>
     set (runnable_heap (tl_sched lp)) \<subseteq> A \<and>
     (\<forall>c < k. \<forall>p. cpu_queues (tl_sched lp) ! c = Some p \<longrightarrow>
        p \<notin> set (runnable_heap (tl_sched lp)) \<and> p \<in> A) \<and>
     (\<forall>c. k \<le> c \<and> c < n \<longrightarrow> cpu_queues (tl_sched lp) ! c = None) \<and>
     slots_exclusive (tl_sched lp) k \<and>
     length (tl_schedule lp) = k \<and>
     (\<forall>c < k. tl_schedule lp ! c = slot_id (tl_sched lp) c))"

text \<open>
  The scheduler states the program can reach: \<^verbatim>\<open>main\<close> initialises the scheduler once and
  then alternates events and ticks. In such a state the registry holds pairwise different,
  allocated task addresses.
\<close>

inductive reachable :: "Scheduler \<Rightarrow> bool" where
  init: "reachable (scheduler_init n q)"
| event: "reachable s \<Longrightarrow> reachable (snd (scheduler_process_event s e))"
| tick: "reachable s \<Longrightarrow> reachable (snd (scheduler_tick s vt))"

definition registry_ok :: "Scheduler \<Rightarrow> bool" where
  "registry_ok s = (distinct (all_tasks s) \<and> (\<forall>p \<in> set (all_tasks s). p < next_ptr s))"

text \<open>
  The cgroup (as an index of the registry) that the task in a CPU slot is charged to, and the
  number of CPUs below \<open>k\<close> whose task is charged to cgroup \<open>c\<close>.
\<close>

definition slot_cgroup :: "Scheduler \<Rightarrow> nat \<Rightarrow> nat option" where
  "slot_cgroup s i =
    (case cpu_queues s ! i of
       None \<Rightarrow> None
     | Some p \<Rightarrow>
         if task_cgroup_id (mem s p) \<noteq> []
         then scheduler_find_cgroup s (task_cgroup_id (mem s p)) else None)"

definition running_in :: "Scheduler \<Rightarrow> nat \<Rightarrow> nat \<Rightarrow> nat" where
  "running_in s k c = length (filter (\<lambda>i. slot_cgroup s i = Some c) [0..<k])"

text \<open>The runtime of one tick in microseconds, as the selection counts it.\<close>

definition tick_runtime :: "Scheduler \<Rightarrow> rat" where
  "tick_runtime s = (if (of_int (quanta s) * 1000 :: rat) < 0 then 0 else of_int (quanta s) * 1000)"

text \<open>
  The invariant of the planned tally in the second loop of a tick, before CPU \<open>k\<close> is
  treated: the tally has one entry per cgroup, for a cgroup with a finite quota it equals one
  tick's runtime per CPU given to the cgroup so far, and with the used runtime it stays
  within the quota of every cgroup that was given a CPU.
\<close>

definition tally_inv :: "Cgroup list \<Rightarrow> TickLoop \<Rightarrow> nat \<Rightarrow> rat \<Rightarrow> bool" where
  "tally_inv cs lp k tk =
    (cgroups (tl_sched lp) = cs \<and>
     distinct (map fst (tl_planned lp)) \<and>
     (\<forall>c \<in> set (map fst (tl_planned lp)). c < length cs) \<and>
     (\<forall>c < length cs. cpu_quota_us (cs ! c) \<ge> 0 \<longrightarrow>
        get_planned_runtime_for_cgroup (tl_planned lp) c =
          of_nat (running_in (tl_sched lp) k c) * tk \<and>
        (running_in (tl_sched lp) k c > 0 \<longrightarrow>
           quota_used (cs ! c) + get_planned_runtime_for_cgroup (tl_planned lp) c
             \<le> of_int (cpu_quota_us (cs ! c)))))"

text \<open>
  Two schedulers agree on the cgroup ids, the quotas, the quantum and the cgroup of every
  task; and a scheduler is within its quotas when for every cgroup with a finite quota the
  used runtime is not negative and, together with one tick's runtime for every CPU occupied
  by a task of the cgroup, does not exceed the quota.
\<close>

definition quota_frame :: "Scheduler \<Rightarrow> Scheduler \<Rightarrow> bool" where
  "quota_frame s s' =
    (map cgroup_id (cgroups s') = map cgroup_id (cgroups s) \<and>
     map cpu_quota_us (cgroups s') = map cpu_quota_us (cgroups s) \<and>
     quanta s' = quanta s \<and>
     (\<forall>p. task_cgroup_id (mem s' p) = task_cgroup_id (mem s p)))"

definition quota_ok :: "Scheduler \<Rightarrow> bool" where
  "quota_ok s =
    (\<forall>c < length (cgroups s). cpu_quota_us (cgroups s ! c) \<ge> 0 \<longrightarrow>
       0 \<le> quota_used (cgroups s ! c) \<and>
       quota_used (cgroups s ! c) +
         of_nat (running_in s (length (cpu_queues s)) c) * tick_runtime s
         \<le> of_int (cpu_quota_us (cgroups s ! c)))"

text \<open>The events that neither move a task to another cgroup nor change the cgroup registry.\<close>

definition quota_safe :: "EventAction \<Rightarrow> bool" where
  "quota_safe a =
    (a \<noteq> EVENT_TASK_MOVE_CGROUP \<and> a \<noteq> EVENT_CGROUP_CREATE \<and>
     a \<noteq> EVENT_CGROUP_MODIFY \<and> a \<noteq> EVENT_CGROUP_DELETE)"

section \<open>Properties\<close>

subsection \<open>Heap operations write only heap positions\<close>

text \<open>
  Two task records are the same task when they agree on every field but \<open>heap_index\<close>; two
  stores are in \<open>heap_frame\<close> when they hold the same task at every address. Every heap
  operation keeps the store in \<open>heap_frame\<close>.
\<close>

lemma same_task_refl [simp]: "same_task t t"
  by (simp add: same_task_def)

lemma same_task_sym: "same_task t t' \<Longrightarrow> same_task t' t"
  by (simp add: same_task_def)

lemma same_task_trans: "same_task t t' \<Longrightarrow> same_task t' t'' \<Longrightarrow> same_task t t''"
  by (simp add: same_task_def)

lemma same_task_heap_index [simp]: "same_task t (t'\<lparr>heap_index := i\<rparr>) = same_task t t'"
  by (simp add: same_task_def)

lemma same_task_fields:
  assumes "same_task t t'"
  shows "task_id t' = task_id t" "nice t' = nice t" "vruntime t' = vruntime t"
    "weight t' = weight t" "state t' = state t" "task_cgroup_id t' = task_cgroup_id t"
    "cpu_affinity t' = cpu_affinity t" "current_cpu t' = current_cpu t"
    "burst_remaining t' = burst_remaining t" "is_burst t' = is_burst t"
proof -
  have e: "t\<lparr>heap_index := 0\<rparr> = t'\<lparr>heap_index := 0\<rparr>"
    using assms by (simp add: same_task_def)
  show "task_id t' = task_id t" using arg_cong [OF e, of task_id] by simp
  show "nice t' = nice t" using arg_cong [OF e, of nice] by simp
  show "vruntime t' = vruntime t" using arg_cong [OF e, of vruntime] by simp
  show "weight t' = weight t" using arg_cong [OF e, of weight] by simp
  show "state t' = state t" using arg_cong [OF e, of state] by simp
  show "task_cgroup_id t' = task_cgroup_id t" using arg_cong [OF e, of task_cgroup_id] by simp
  show "cpu_affinity t' = cpu_affinity t" using arg_cong [OF e, of cpu_affinity] by simp
  show "current_cpu t' = current_cpu t" using arg_cong [OF e, of current_cpu] by simp
  show "burst_remaining t' = burst_remaining t" using arg_cong [OF e, of burst_remaining] by simp
  show "is_burst t' = is_burst t" using arg_cong [OF e, of is_burst] by simp
qed

lemma heap_frame_refl [simp]: "heap_frame m m"
  by (simp add: heap_frame_def)

lemma heap_frame_trans: "heap_frame m m' \<Longrightarrow> heap_frame m' m'' \<Longrightarrow> heap_frame m m''"
  unfolding heap_frame_def by (blast intro: same_task_trans)

lemma heap_frame_set_heap_index [simp]: "heap_frame m (set_heap_index m' p i) = heap_frame m m'"
  by (auto simp: heap_frame_def set_heap_index_def)

lemma heap_frame_swap: "heap_frame m (fst (heap_swap (m', h) i j)) = heap_frame m m'"
  by (simp add: heap_swap_def Let_def)

lemma heap_frame_bubble_up: "heap_frame m (fst (heap_bubble_up hs idx)) = heap_frame m (fst hs)"
proof (induction hs idx rule: heap_bubble_up.induct)
  case (1 hs idx)
  show ?case
    by (subst heap_bubble_up.simps) (simp add: 1 heap_frame_swap [of m "fst hs" "snd hs", simplified])
qed

lemma heap_frame_bubble_down: "heap_frame m (fst (heap_bubble_down hs idx)) = heap_frame m (fst hs)"
proof (induction hs idx rule: heap_bubble_down.induct)
  case (1 hs idx)
  show ?case
    by (subst heap_bubble_down.simps)
      (simp add: 1 Let_def heap_frame_swap [of m "fst hs" "snd hs", simplified])
qed

lemma heap_frame_insert: "heap_frame m (fst (heap_insert hs t)) = heap_frame m (fst hs)"
  by (simp add: heap_insert_def Let_def heap_frame_bubble_up)

lemma heap_frame_extract_min:
  "heap_frame m (fst (snd (heap_extract_min hs))) = heap_frame m (fst hs)"
  by (simp add: heap_extract_min_def Let_def heap_frame_bubble_down)

lemma heap_frame_remove: "heap_frame m (fst (snd (heap_remove hs t))) = heap_frame m (fst hs)"
  by (simp add: heap_remove_def Let_def heap_frame_bubble_down heap_frame_bubble_up)

lemma heap_frame_update: "heap_frame m (fst (heap_update hs t)) = heap_frame m (fst hs)"
  by (simp add: heap_update_def Let_def heap_frame_bubble_down heap_frame_bubble_up)

subsection \<open>Lookups and clamping\<close>

lemma find_cgroup_from_Some:
  "find_cgroup_from i cs cid = Some c \<Longrightarrow>
     i \<le> c \<and> c - i < length cs \<and> cgroup_id (cs ! (c - i)) = cid"
proof (induction cs arbitrary: i)
  case Nil
  then show ?case by simp
next
  case (Cons a cs)
  show ?case
  proof (cases "cgroup_id a = cid")
    case True
    with Cons.prems show ?thesis by simp
  next
    case False
    with Cons.prems have "find_cgroup_from (Suc i) cs cid = Some c" by simp
    from Cons.IH [OF this] show ?thesis
      by (auto simp: nth_Cons split: nat.splits) (metis Suc_diff_Suc Suc_le_lessD nat.inject)+
  qed
qed

lemma scheduler_find_cgroup_Some:
  "scheduler_find_cgroup s cid = Some c \<Longrightarrow> c < length (cgroups s) \<and> cgroup_id (cgroups s ! c) = cid"
  using find_cgroup_from_Some [of 0 "cgroups s" cid c] by (simp add: scheduler_find_cgroup_def)

lemma find_cgroup_from_None:
  "find_cgroup_from i cs cid = None \<longleftrightarrow> cid \<notin> cgroup_id ` set cs"
  by (induction cs arbitrary: i) auto

lemma scheduler_find_cgroup_None:
  "scheduler_find_cgroup s cid = None \<longleftrightarrow> cid \<notin> cgroup_id ` set (cgroups s)"
  by (simp add: scheduler_find_cgroup_def find_cgroup_from_None)

lemma clamp_nice:
  "(if (if n < NICE_MIN then NICE_MIN else n) > NICE_MAX then NICE_MAX
    else (if n < NICE_MIN then NICE_MIN else n)) = max (- 20) (min 19 n)"
  by (simp add: NICE_MIN_def NICE_MAX_def)

lemma find_append_first:
  "List.find P xs = Some x \<Longrightarrow> List.find P (xs @ ys) = Some x"
  by (induction xs) (auto split: if_splits)

lemma find_cong_set:
  "(\<And>x. x \<in> set xs \<Longrightarrow> P x = Q x) \<Longrightarrow> List.find P xs = List.find Q xs"
  by (induction xs) auto

lemma DBL_MAX_value: "DBL_MAX = 2 ^ 1024 - 2 ^ 971"
  by (simp add: DBL_MAX_def)

subsection \<open>Rounding to \<^verbatim>\<open>double\<close>\<close>

lemma int_le_pow2: "(2::int) ^ n \<le> p \<Longrightarrow> (2::rat) powi int n \<le> of_int p"
proof -
  assume "(2::int) ^ n \<le> p"
  then have "(of_int ((2::int) ^ n) :: rat) \<le> of_int p" by (simp only: of_int_le_iff)
  then show ?thesis by simp
qed

lemma int_less_pow2: "p < (2::int) ^ n \<Longrightarrow> (of_int p :: rat) < 2 powi int n"
proof -
  assume "p < (2::int) ^ n"
  then have "(of_int p :: rat) < of_int ((2::int) ^ n)" by (simp only: of_int_less_iff)
  then show ?thesis by simp
qed

lemma bitlen_rat_bounds:
  assumes "0 < p"
  shows "(2::rat) powi (bitlen p - 1) \<le> of_int p" and "(of_int p :: rat) < 2 powi bitlen p"
proof -
  have b: "1 \<le> bitlen p"
    using assms bitlen_eq_zero_iff [of p] bitlen_nonneg [of p] by linarith
  have "(2::rat) powi int (nat (bitlen p - 1)) \<le> of_int p"
    using bitlen_bounds [OF assms] by (intro int_le_pow2) simp
  then show "(2::rat) powi (bitlen p - 1) \<le> of_int p" using b by simp
  have "(of_int p :: rat) < 2 powi int (nat (bitlen p))"
    using bitlen_bounds [OF assms] by (intro int_less_pow2) simp
  then show "(of_int p :: rat) < 2 powi bitlen p" using b by simp
qed

lemma ilog2_bounds:
  assumes "0 < x"
  shows "2 powi (ilog2 x) \<le> x" and "x < 2 powi (ilog2 x + 1)"
proof -
  obtain p q where pq: "quotient_of x = (p, q)" by (cases "quotient_of x")
  have q: "0 < q" using pq by (rule quotient_of_denom_pos)
  have x: "x = of_int p / of_int q" using pq by (rule quotient_of_div)
  have p: "0 < p" using assms q x by (simp add: zero_less_divide_iff)
  let ?e0 = "bitlen p - bitlen q"
  note bp = bitlen_rat_bounds [OF p] and bq = bitlen_rat_bounds [OF q]
  have qr: "(0::rat) < of_int q" using q by simp
  have lo: "2 powi (?e0 - 1) < x"
  proof -
    have "(2::rat) powi (?e0 - 1) = 2 powi (bitlen p - 1) / 2 powi bitlen q"
      by (simp add: power_int_diff)
    also have "\<dots> \<le> of_int p / 2 powi bitlen q"
      using bp(1) by (intro divide_right_mono) simp_all
    also have "\<dots> < of_int p / of_int q"
      using bq(2) p qr by (intro frac_less2) simp_all
    finally show ?thesis using x by simp
  qed
  have hi: "x < 2 powi (?e0 + 1)"
  proof -
    have pos: "(0::rat) < 2 powi (bitlen q - 1)" by simp
    have "x = of_int p / of_int q" by (rule x)
    also have "\<dots> \<le> of_int p / 2 powi (bitlen q - 1)"
      using bq(1) p pos by (intro frac_le) simp_all
    also have "\<dots> < 2 powi bitlen p / 2 powi (bitlen q - 1)"
      using bp(2) pos by (intro divide_strict_right_mono) simp_all
    also have "\<dots> = 2 powi (bitlen p - (bitlen q - 1))"
      by (subst power_int_diff) simp_all
    also have "bitlen p - (bitlen q - 1) = ?e0 + 1" by simp
    finally show ?thesis .
  qed
  have il: "ilog2 x = (if 2 powi ?e0 \<le> x then ?e0 else ?e0 - 1)"
    using pq by (simp add: ilog2_def Let_def)
  show "2 powi (ilog2 x) \<le> x"
    using il lo by (simp split: if_splits)
  show "x < 2 powi (ilog2 x + 1)"
    using il hi by (simp split: if_splits)
qed

lemma round_half_even_error: "\<bar>of_int (round_half_even m) - m\<bar> \<le> 1 / 2"
proof -
  have "of_int \<lfloor>m\<rfloor> \<le> m" "m < of_int \<lfloor>m\<rfloor> + 1" by linarith+
  then show ?thesis
    by (auto simp: round_half_even_def Let_def)
qed

text \<open>The error of one rounding: half a unit in the last place.\<close>

lemma fl_error:
  assumes "x \<noteq> 0"
  shows "\<bar>fl x - x\<bar> \<le> 2 powi (max (ilog2 \<bar>x\<bar> - 52) (- 1074)) / 2"
proof -
  define u :: rat where "u = 2 powi (max (ilog2 \<bar>x\<bar> - 52) (- 1074))"
  define n :: rat where "n = of_int (round_half_even (\<bar>x\<bar> / u))"
  have u: "0 < u" by (simp add: u_def)
  have f: "fl x = sgn x * n * u"
    using assms by (simp add: fl_def Let_def u_def n_def)
  have r: "\<bar>n - \<bar>x\<bar> / u\<bar> \<le> 1 / 2"
    unfolding n_def by (rule round_half_even_error)
  have "n * u - \<bar>x\<bar> = (n - \<bar>x\<bar> / u) * u"
    using u by (simp add: field_simps)
  then have "\<bar>n * u - \<bar>x\<bar>\<bar> = \<bar>n - \<bar>x\<bar> / u\<bar> * u"
    using u by (simp add: abs_mult)
  also have "\<dots> \<le> 1 / 2 * u"
    using r u by (intro mult_right_mono) simp_all
  finally have a: "\<bar>n * u - \<bar>x\<bar>\<bar> \<le> u / 2" by simp
  have "x = sgn x * \<bar>x\<bar>" by (simp add: sgn_mult_abs)
  then have "fl x - x = sgn x * n * u - sgn x * \<bar>x\<bar>" using f by simp
  also have "\<dots> = sgn x * (n * u - \<bar>x\<bar>)" by (simp add: right_diff_distrib)
  finally have "\<bar>fl x - x\<bar> = \<bar>sgn x\<bar> * \<bar>n * u - \<bar>x\<bar>\<bar>" by (simp only: abs_mult)
  also have "\<bar>sgn x\<bar> = 1" using assms by (simp add: abs_sgn_eq)
  finally show ?thesis using a by (simp add: u_def)
qed

text \<open>In the normal range the error is at most \<open>2 ^ - 53\<close> of the value.\<close>

lemma fl_relative_error:
  assumes "2 powi (- 1022) \<le> \<bar>x\<bar>"
  shows "\<bar>fl x - x\<bar> \<le> \<bar>x\<bar> / 2 ^ 53"
proof -
  have pos: "0 < \<bar>x\<bar>"
    using assms zero_less_power_int [of "2::rat" "- 1022"] by linarith
  then have nz: "x \<noteq> 0" by simp
  have "- 1022 \<le> ilog2 \<bar>x\<bar>"
  proof (rule ccontr)
    assume "\<not> - 1022 \<le> ilog2 \<bar>x\<bar>"
    then have "ilog2 \<bar>x\<bar> + 1 \<le> - 1022" by simp
    then have "(2::rat) powi (ilog2 \<bar>x\<bar> + 1) \<le> 2 powi (- 1022)"
      by (intro power_int_increasing) simp_all
    with ilog2_bounds(2) [OF pos] assms show False by linarith
  qed
  then have e: "max (ilog2 \<bar>x\<bar> - 52) (- 1074) = ilog2 \<bar>x\<bar> - 52" by simp
  have "\<bar>fl x - x\<bar> \<le> 2 powi (ilog2 \<bar>x\<bar> - 52) / 2"
    using fl_error [OF nz] e by simp
  also have "\<dots> = 2 powi (ilog2 \<bar>x\<bar>) / 2 ^ 53"
    by (simp add: power_int_diff)
  also have "\<dots> \<le> \<bar>x\<bar> / 2 ^ 53"
    using ilog2_bounds(1) [OF pos] by (simp add: divide_right_mono)
  finally show ?thesis .
qed

lemma round_half_even_int [simp]: "round_half_even (of_int m) = m"
  by (simp add: round_half_even_def)

text \<open>An integer of at most 53 bits is a \<^verbatim>\<open>double\<close>: rounding leaves it as it is.\<close>

lemma fl_int:
  assumes "\<bar>n\<bar> \<le> 2 ^ 53"
  shows "fl (of_int n) = of_int n"
proof (cases "n = 0")
  case True
  then show ?thesis by (simp add: fl_def)
next
  case False
  define a :: int where "a = \<bar>n\<bar>"
  define l where "l = ilog2 (of_int a)"
  have a: "1 \<le> a" "a \<le> 2 ^ 53" using False assms by (simp_all add: a_def)
  have ar: "(0::rat) < of_int a" using a by simp
  note b = ilog2_bounds [OF ar, folded l_def]
  have l0: "0 \<le> l"
  proof (rule ccontr)
    assume "\<not> 0 \<le> l"
    then have "l + 1 \<le> 0" by simp
    then have "(2::rat) powi (l + 1) \<le> 2 powi 0"
      by (intro power_int_increasing) simp_all
    with b(2) have "(of_int a :: rat) < 1" by simp
    with a(1) show False by simp
  qed
  have l53: "l \<le> 53"
  proof (rule ccontr)
    assume "\<not> l \<le> 53"
    then have "54 \<le> l" by simp
    then have "(2::rat) powi 54 \<le> 2 powi l"
      by (intro power_int_increasing) simp_all
    with b(1) have "(2::rat) ^ 54 \<le> of_int a" by simp
    moreover have "(of_int a :: rat) \<le> of_int (2 ^ 53)" using a(2) by (simp only: of_int_le_iff)
    ultimately show False by simp
  qed
  define e where "e = max (l - 52) (- 1074)"
  have e: "e = l - 52" using l0 by (simp add: e_def)
  have "\<exists>m. (of_int a :: rat) / 2 powi e = of_int m"
  proof (cases "l = 53")
    case True
    then have "(2::rat) ^ 53 \<le> of_int a" using b(1) by simp
    moreover have "(of_int a :: rat) \<le> of_int (2 ^ 53)" using a(2) by (simp only: of_int_le_iff)
    ultimately have "(of_int a :: rat) = 2 ^ 53" by simp
    then have "(of_int a :: rat) / 2 powi e = of_int (2 ^ 52)"
      using e True by simp
    then show ?thesis by blast
  next
    case False
    then have "e \<le> 0" using e l53 by simp
    then obtain k where k: "e = - int k" by (metis int_nat_eq minus_minus neg_0_le_iff_le nat_0_le)
    have "(of_int a :: rat) / 2 powi e = of_int (a * 2 ^ k)"
      by (simp add: k power_int_minus field_simps)
    then show ?thesis by blast
  qed
  then obtain m where m: "(of_int a :: rat) / 2 powi e = of_int m" by blast
  have "\<bar>rat_of_int n\<bar> = of_int a" by (simp add: a_def)
  then have "fl (of_int n) = sgn (of_int n) * of_int m * 2 powi e"
    using False m by (simp add: fl_def Let_def l_def [symmetric] e_def [symmetric])
  also have "of_int m * (2::rat) powi e = of_int a"
    using m by (simp add: field_simps)
  then have "sgn (rat_of_int n) * of_int m * 2 powi e = sgn (of_int n) * of_int a"
    by (simp add: mult.assoc)
  also have "\<dots> = of_int n"
    using sgn_mult_abs [of "rat_of_int n"] by (simp add: a_def)
  finally show ?thesis .
qed

text \<open>The same function, with the integers of at most 53 bits returned at once.\<close>

lemma fl_code [code]:
  "fl x =
    (if snd (quotient_of x) = 1 \<and> \<bar>fst (quotient_of x)\<bar> \<le> 2 ^ 53 then x
     else if x = 0 then 0
     else
       let e = max (ilog2 \<bar>x\<bar> - 52) (- 1074);
           n = round_half_even (\<bar>x\<bar> / 2 powi e)
       in sgn x * of_int n * 2 powi e)"
proof (cases "snd (quotient_of x) = 1 \<and> \<bar>fst (quotient_of x)\<bar> \<le> 2 ^ 53")
  case True
  obtain p q where pq: "quotient_of x = (p, q)" by (cases "quotient_of x")
  have "x = of_int p" using quotient_of_div [OF pq] True pq by simp
  then show ?thesis using True pq fl_int [of p] by simp
next
  case False
  show ?thesis
    by (subst if_not_P [OF False]) (simp add: fl_def)
qed

lemma fl_abs_le: "\<bar>fl x\<bar> \<le> 2 * \<bar>x\<bar> + 1"
proof (cases "x = 0")
  case True
  then show ?thesis by (simp add: fl_def)
next
  case False
  then have pos: "0 < \<bar>x\<bar>" by simp
  define l where "l = ilog2 \<bar>x\<bar>"
  have "(2::rat) powi (l - 52) \<le> 2 powi l"
    by (intro power_int_increasing) simp_all
  also have "\<dots> \<le> \<bar>x\<bar>" unfolding l_def by (rule ilog2_bounds(1) [OF pos])
  finally have a: "(2::rat) powi (l - 52) \<le> \<bar>x\<bar>" .
  have "(2::rat) powi (- 1074) \<le> 2 powi 0"
    by (intro power_int_increasing) simp_all
  then have b: "(2::rat) powi (- 1074) \<le> 1" by simp
  have "(2::rat) powi (max (l - 52) (- 1074)) \<le> \<bar>x\<bar> + 1"
    using a b pos by (cases "l - 52 \<le> - 1074") (simp_all add: max_def)
  then have "\<bar>fl x - x\<bar> \<le> (\<bar>x\<bar> + 1) / 2"
    using fl_error [OF False] by (simp add: l_def)
  moreover have "\<bar>fl x\<bar> \<le> \<bar>fl x - x\<bar> + \<bar>x\<bar>"
    using abs_triangle_ineq [of "fl x - x" x] by simp
  moreover have "0 \<le> \<bar>x\<bar>" by simp
  moreover define A X F where "A = \<bar>fl x - x\<bar>" and "X = \<bar>x\<bar>" and "F = \<bar>fl x\<bar>"
  ultimately have "A * 2 \<le> X + 1" "F \<le> A + X" "0 \<le> X" by simp_all
  then have "F \<le> 2 * X + 1" by linarith
  then show ?thesis by (simp add: F_def X_def)
qed

subsection \<open>Fields left alone by the scheduler's writes\<close>

lemma set_hs_fields [simp]:
  "cpu_queues (set_hs s hs) = cpu_queues s"
  "quanta (set_hs s hs) = quanta s"
  "all_tasks (set_hs s hs) = all_tasks s"
  "cgroups (set_hs s hs) = cgroups s"
  "current_vtime (set_hs s hs) = current_vtime s"
  "preemptions (set_hs s hs) = preemptions s"
  "migrations (set_hs s hs) = migrations s"
  "next_ptr (set_hs s hs) = next_ptr s"
  "mem (set_hs s hs) = fst hs"
  "runnable_heap (set_hs s hs) = snd hs"
  by (simp_all add: set_hs_def)

lemma hs_of_fields [simp]:
  "fst (hs_of s) = mem s" "snd (hs_of s) = runnable_heap s"
  by (simp_all add: hs_of_def)

lemma upd_task_fields [simp]:
  "cpu_queues (upd_task s p f) = cpu_queues s"
  "quanta (upd_task s p f) = quanta s"
  "all_tasks (upd_task s p f) = all_tasks s"
  "cgroups (upd_task s p f) = cgroups s"
  "current_vtime (upd_task s p f) = current_vtime s"
  "preemptions (upd_task s p f) = preemptions s"
  "migrations (upd_task s p f) = migrations s"
  "next_ptr (upd_task s p f) = next_ptr s"
  "runnable_heap (upd_task s p f) = runnable_heap s"
  "mem (upd_task s p f) = (mem s)(p := f (mem s p))"
  by (simp_all add: upd_task_def)

lemma sched_heap_insert_fields [simp]:
  "cpu_queues (sched_heap_insert s p) = cpu_queues s"
  "quanta (sched_heap_insert s p) = quanta s"
  "all_tasks (sched_heap_insert s p) = all_tasks s"
  "cgroups (sched_heap_insert s p) = cgroups s"
  "current_vtime (sched_heap_insert s p) = current_vtime s"
  "preemptions (sched_heap_insert s p) = preemptions s"
  "migrations (sched_heap_insert s p) = migrations s"
  "next_ptr (sched_heap_insert s p) = next_ptr s"
  by (simp_all add: sched_heap_insert_def)

lemma sched_heap_insert_frame: "heap_frame (mem s) (mem (sched_heap_insert s p))"
  by (simp add: sched_heap_insert_def heap_frame_insert)

lemma heap_frame_fields:
  assumes "heap_frame m m'"
  shows "task_id (m' p) = task_id (m p)" "nice (m' p) = nice (m p)"
    "vruntime (m' p) = vruntime (m p)" "weight (m' p) = weight (m p)"
    "state (m' p) = state (m p)" "task_cgroup_id (m' p) = task_cgroup_id (m p)"
    "cpu_affinity (m' p) = cpu_affinity (m p)" "current_cpu (m' p) = current_cpu (m p)"
    "burst_remaining (m' p) = burst_remaining (m p)" "is_burst (m' p) = is_burst (m p)"
  using assms same_task_fields [of "m p" "m' p"] by (simp_all add: heap_frame_def)

lemmas sched_heap_insert_task [simp] = heap_frame_fields [OF sched_heap_insert_frame]

subsection \<open>Fields left alone by events and by the phases of a tick\<close>

lemma reassign_step_fields [simp]:
  "cpu_queues (reassign_step cid p s) = cpu_queues s"
  "all_tasks (reassign_step cid p s) = all_tasks s"
  "quanta (reassign_step cid p s) = quanta s"
  "cgroups (reassign_step cid p s) = cgroups s"
  "next_ptr (reassign_step cid p s) = next_ptr s"
  "runnable_heap (reassign_step cid p s) = runnable_heap s"
  by (simp_all add: reassign_step_def)

lemma fold_reassign_fields [simp]:
  "cpu_queues (fold (reassign_step cid) ps s) = cpu_queues s"
  "all_tasks (fold (reassign_step cid) ps s) = all_tasks s"
  "quanta (fold (reassign_step cid) ps s) = quanta s"
  "cgroups (fold (reassign_step cid) ps s) = cgroups s"
  "next_ptr (fold (reassign_step cid) ps s) = next_ptr s"
  "runnable_heap (fold (reassign_step cid) ps s) = runnable_heap s"
  by (induction ps arbitrary: s) simp_all

lemma process_event_cpu_queues:
  "length (cpu_queues (snd (scheduler_process_event s e))) = length (cpu_queues s)"
  by (cases "action e")
    (simp_all add: scheduler_process_event_def scheduler_add_task_def scheduler_remove_task_def
      scheduler_add_cgroup_def scheduler_remove_cgroup_def Let_def
      split: option.splits)

lemma process_events_cpu_queues:
  "length (cpu_queues (snd (process_events s es))) = length (cpu_queues s)"
  by (induction es arbitrary: s) (simp_all add: Let_def process_event_cpu_queues)

lemma charge_vruntime_fields [simp]:
  "cpu_queues (charge_vruntime s p) = cpu_queues s"
  "all_tasks (charge_vruntime s p) = all_tasks s"
  "quanta (charge_vruntime s p) = quanta s"
  "cgroups (charge_vruntime s p) = cgroups s"
  "next_ptr (charge_vruntime s p) = next_ptr s"
  "runnable_heap (charge_vruntime s p) = runnable_heap s"
  by (simp_all add: charge_vruntime_def Let_def)

lemma charge_quota_fields [simp]:
  "cpu_queues (charge_quota s p) = cpu_queues s"
  "all_tasks (charge_quota s p) = all_tasks s"
  "quanta (charge_quota s p) = quanta s"
  "mem (charge_quota s p) = mem s"
  "next_ptr (charge_quota s p) = next_ptr s"
  "runnable_heap (charge_quota s p) = runnable_heap s"
  by (simp_all add: charge_quota_def Let_def split: option.splits)

lemma burst_countdown_fields [simp]:
  "cpu_queues (burst_countdown s p) = cpu_queues s"
  "all_tasks (burst_countdown s p) = all_tasks s"
  "quanta (burst_countdown s p) = quanta s"
  "cgroups (burst_countdown s p) = cgroups s"
  "next_ptr (burst_countdown s p) = next_ptr s"
  "runnable_heap (burst_countdown s p) = runnable_heap s"
  by (simp_all add: burst_countdown_def Let_def)

lemma account_cpu_cpu_queues: "length (cpu_queues (account_cpu s i)) = length (cpu_queues s)"
  by (simp add: account_cpu_def Let_def split: option.splits)

lemma fold_account_cpu_queues:
  "length (cpu_queues (fold (\<lambda>i s'. account_cpu s' i) is s)) = length (cpu_queues s)"
  by (induction "is" arbitrary: s) (simp_all add: account_cpu_cpu_queues)

lemma account_running_cpu_queues:
  "length (cpu_queues (account_running s)) = length (cpu_queues s)"
  by (simp add: account_running_def fold_account_cpu_queues)

lemma rebuild_step_fields [simp]:
  "cpu_queues (rebuild_step p s) = cpu_queues s"
  "all_tasks (rebuild_step p s) = all_tasks s"
  "quanta (rebuild_step p s) = quanta s"
  "cgroups (rebuild_step p s) = cgroups s"
  "next_ptr (rebuild_step p s) = next_ptr s"
  by (simp_all add: rebuild_step_def Let_def)

lemma fold_rebuild_fields [simp]:
  "cpu_queues (fold rebuild_step ps s) = cpu_queues s"
  "all_tasks (fold rebuild_step ps s) = all_tasks s"
  "quanta (fold rebuild_step ps s) = quanta s"
  "cgroups (fold rebuild_step ps s) = cgroups s"
  "next_ptr (fold rebuild_step ps s) = next_ptr s"
  by (induction ps arbitrary: s) simp_all

lemma rebuild_fields [simp]:
  "cpu_queues (rebuild_runnable_heap s) = cpu_queues s"
  "all_tasks (rebuild_runnable_heap s) = all_tasks s"
  "quanta (rebuild_runnable_heap s) = quanta s"
  "cgroups (rebuild_runnable_heap s) = cgroups s"
  "next_ptr (rebuild_runnable_heap s) = next_ptr s"
  by (simp_all add: rebuild_runnable_heap_def)

lemma refresh_fields [simp]:
  "cpu_queues (refresh_cgroup_periods s vt) = cpu_queues s"
  "all_tasks (refresh_cgroup_periods s vt) = all_tasks s"
  "quanta (refresh_cgroup_periods s vt) = quanta s"
  "mem (refresh_cgroup_periods s vt) = mem s"
  "runnable_heap (refresh_cgroup_periods s vt) = runnable_heap s"
  "next_ptr (refresh_cgroup_periods s vt) = next_ptr s"
  by (simp_all add: refresh_cgroup_periods_def Let_def)

lemma schedule_cpu_length:
  "length (tl_schedule (schedule_cpu prev tk lp cpu)) = Suc (length (tl_schedule lp))"
  by (simp add: schedule_cpu_def Let_def split: option.splits)

lemma fold_schedule_cpu_length:
  "length (tl_schedule (fold (\<lambda>cpu lp'. schedule_cpu prev tk lp' cpu) cs lp)) =
     length cs + length (tl_schedule lp)"
  by (induction cs arbitrary: lp) (simp_all add: schedule_cpu_length)

lemma scheduler_tick_record:
  "vtime (fst (scheduler_tick s vt)) = vt \<and>
   length (schedule (fst (scheduler_tick s vt))) = length (cpu_queues s)"
  by (simp add: scheduler_tick_def Let_def select_all_def fold_schedule_cpu_length
      account_running_cpu_queues)

subsection \<open>The selection loop\<close>

lemma heap_extract_min_Some:
  "snd hs \<noteq> [] \<Longrightarrow> fst (heap_extract_min hs) = Some (snd hs ! 0)"
  by (simp add: heap_extract_min_def Let_def)

lemma pick_loop_empty:
  "heap_is_empty (runnable_heap s) \<Longrightarrow> pick_loop s cpu pl tk d = (None, s, d)"
  by (subst pick_loop.simps) simp

lemma pick_loop_defer:
  "\<not> heap_is_empty (runnable_heap s) \<Longrightarrow> c = runnable_heap s ! 0 \<Longrightarrow>
   s1 = set_hs s (snd (heap_extract_min (hs_of s))) \<Longrightarrow>
   \<not> can_task_run_on_cpu s1 (mem s1 c) cpu \<or> quota_defers s1 pl tk (mem s1 c) \<Longrightarrow>
     pick_loop s cpu pl tk d = pick_loop s1 cpu pl tk (d @ [c])"
  by (subst pick_loop.simps) (auto simp: Let_def heap_is_empty_def heap_extract_min_Some)

lemma pick_loop_select:
  "\<not> heap_is_empty (runnable_heap s) \<Longrightarrow> c = runnable_heap s ! 0 \<Longrightarrow>
   s1 = set_hs s (snd (heap_extract_min (hs_of s))) \<Longrightarrow>
   can_task_run_on_cpu s1 (mem s1 c) cpu \<Longrightarrow> \<not> quota_defers s1 pl tk (mem s1 c) \<Longrightarrow>
     pick_loop s cpu pl tk d = (Some c, s1, d)"
  by (subst pick_loop.simps) (auto simp: Let_def heap_is_empty_def heap_extract_min_Some)

text \<open>
  An induction rule for the selection loop: a property of the loop's result holds when it
  holds for an empty heap, is passed on through a deferred candidate, and holds for a
  selected candidate.
\<close>

lemma pick_loop_rule [case_names empty deferred select]:
  assumes empty: "\<And>s d. heap_is_empty (runnable_heap s) \<Longrightarrow> P s d (None, s, d)"
    and deferred: "\<And>s d c s1. \<not> heap_is_empty (runnable_heap s) \<Longrightarrow> c = runnable_heap s ! 0 \<Longrightarrow>
        s1 = set_hs s (snd (heap_extract_min (hs_of s))) \<Longrightarrow>
        \<not> can_task_run_on_cpu s1 (mem s1 c) cpu \<or> quota_defers s1 pl tk (mem s1 c) \<Longrightarrow>
        P s1 (d @ [c]) (pick_loop s1 cpu pl tk (d @ [c])) \<Longrightarrow>
        P s d (pick_loop s1 cpu pl tk (d @ [c]))"
    and select: "\<And>s d c s1. \<not> heap_is_empty (runnable_heap s) \<Longrightarrow> c = runnable_heap s ! 0 \<Longrightarrow>
        s1 = set_hs s (snd (heap_extract_min (hs_of s))) \<Longrightarrow>
        can_task_run_on_cpu s1 (mem s1 c) cpu \<Longrightarrow> \<not> quota_defers s1 pl tk (mem s1 c) \<Longrightarrow>
        P s d (Some c, s1, d)"
  shows "P s d (pick_loop s cpu pl tk d)"
proof (induction "length (runnable_heap s)" arbitrary: s d rule: less_induct)
  case less
  let ?c = "runnable_heap s ! 0"
  let ?s1 = "set_hs s (snd (heap_extract_min (hs_of s)))"
  show ?case
  proof (cases "heap_is_empty (runnable_heap s)")
    case True
    then show ?thesis using empty by (simp add: pick_loop_empty)
  next
    case False
    then have shorter: "length (runnable_heap ?s1) < length (runnable_heap s)"
      using length_heap_extract_min [of "hs_of s"] by (simp add: heap_is_empty_def)
    show ?thesis
    proof (cases "can_task_run_on_cpu ?s1 (mem ?s1 ?c) cpu \<and> \<not> quota_defers ?s1 pl tk (mem ?s1 ?c)")
      case True
      then have c1: "can_task_run_on_cpu ?s1 (mem ?s1 ?c) cpu"
        and c2: "\<not> quota_defers ?s1 pl tk (mem ?s1 ?c)"
        by blast+
      show ?thesis
        using select [OF False refl refl c1 c2, of d]
          pick_loop_select [OF False refl refl c1 c2, of d]
        by simp
    next
      case nsel: False
      then have df: "\<not> can_task_run_on_cpu ?s1 (mem ?s1 ?c) cpu \<or> quota_defers ?s1 pl tk (mem ?s1 ?c)"
        by blast
      have ih: "P ?s1 (d @ [?c]) (pick_loop ?s1 cpu pl tk (d @ [?c]))"
        using less [OF shorter] .
      from deferred [OF False refl refl df ih] pick_loop_defer [OF False refl refl df, of d]
      show ?thesis by simp
    qed
  qed
qed

lemma pick_loop_fields:
  "cgroups (fst (snd (pick_loop s cpu pl tk d))) = cgroups s \<and>
   all_tasks (fst (snd (pick_loop s cpu pl tk d))) = all_tasks s \<and>
   cpu_queues (fst (snd (pick_loop s cpu pl tk d))) = cpu_queues s \<and>
   quanta (fst (snd (pick_loop s cpu pl tk d))) = quanta s \<and>
   preemptions (fst (snd (pick_loop s cpu pl tk d))) = preemptions s \<and>
   migrations (fst (snd (pick_loop s cpu pl tk d))) = migrations s \<and>
   current_vtime (fst (snd (pick_loop s cpu pl tk d))) = current_vtime s \<and>
   next_ptr (fst (snd (pick_loop s cpu pl tk d))) = next_ptr s \<and>
   heap_frame (mem s) (mem (fst (snd (pick_loop s cpu pl tk d))))"
proof (induction rule: pick_loop_rule
    [where P = "\<lambda>s d r. cgroups (fst (snd r)) = cgroups s \<and>
   all_tasks (fst (snd r)) = all_tasks s \<and>
   cpu_queues (fst (snd r)) = cpu_queues s \<and>
   quanta (fst (snd r)) = quanta s \<and>
   preemptions (fst (snd r)) = preemptions s \<and>
   migrations (fst (snd r)) = migrations s \<and>
   current_vtime (fst (snd r)) = current_vtime s \<and>
   next_ptr (fst (snd r)) = next_ptr s \<and>
   heap_frame (mem s) (mem (fst (snd r)))"])
  case (empty s d)
  then show ?case by simp
next
  case (deferred s d c s1)
  have "heap_frame (mem s) (mem s1)"
    using deferred(3) by (simp add: heap_frame_extract_min)
  with deferred show ?case
    by (auto intro: heap_frame_trans)
next
  case (select s d c s1)
  then show ?case by (simp add: heap_frame_extract_min)
qed

subsection \<open>A tick keeps the registries\<close>

lemma fold_reinsert_fields:
  "cgroups (fold (\<lambda>p s'. sched_heap_insert s' p) ps s) = cgroups s \<and>
   all_tasks (fold (\<lambda>p s'. sched_heap_insert s' p) ps s) = all_tasks s \<and>
   cpu_queues (fold (\<lambda>p s'. sched_heap_insert s' p) ps s) = cpu_queues s \<and>
   quanta (fold (\<lambda>p s'. sched_heap_insert s' p) ps s) = quanta s \<and>
   preemptions (fold (\<lambda>p s'. sched_heap_insert s' p) ps s) = preemptions s \<and>
   migrations (fold (\<lambda>p s'. sched_heap_insert s' p) ps s) = migrations s \<and>
   current_vtime (fold (\<lambda>p s'. sched_heap_insert s' p) ps s) = current_vtime s \<and>
   next_ptr (fold (\<lambda>p s'. sched_heap_insert s' p) ps s) = next_ptr s \<and>
   heap_frame (mem s) (mem (fold (\<lambda>p s'. sched_heap_insert s' p) ps s))"
proof (induction ps arbitrary: s)
  case Nil
  then show ?case by simp
next
  case (Cons p ps)
  from Cons [of "sched_heap_insert s p"] sched_heap_insert_frame [of s p]
  show ?case by (auto intro: heap_frame_trans)
qed

lemma pick_task_for_cpu_fields:
  "cgroups (fst (snd (pick_task_for_cpu s cpu pl tk))) = cgroups s \<and>
   all_tasks (fst (snd (pick_task_for_cpu s cpu pl tk))) = all_tasks s \<and>
   cpu_queues (fst (snd (pick_task_for_cpu s cpu pl tk))) = cpu_queues s \<and>
   quanta (fst (snd (pick_task_for_cpu s cpu pl tk))) = quanta s \<and>
   preemptions (fst (snd (pick_task_for_cpu s cpu pl tk))) = preemptions s \<and>
   migrations (fst (snd (pick_task_for_cpu s cpu pl tk))) = migrations s \<and>
   current_vtime (fst (snd (pick_task_for_cpu s cpu pl tk))) = current_vtime s \<and>
   next_ptr (fst (snd (pick_task_for_cpu s cpu pl tk))) = next_ptr s \<and>
   heap_frame (mem s) (mem (fst (snd (pick_task_for_cpu s cpu pl tk))))"
  using pick_loop_fields [of s cpu pl tk "[]"]
    fold_reinsert_fields [of "snd (snd (pick_loop s cpu pl tk []))" "fst (snd (pick_loop s cpu pl tk []))"]
  by (auto simp: pick_task_for_cpu_def Let_def intro: heap_frame_trans)

lemma same_ids_refl [simp]: "same_ids s s"
  by (simp add: same_ids_def)

lemma same_ids_trans [trans]: "same_ids s s' \<Longrightarrow> same_ids s' s'' \<Longrightarrow> same_ids s s''"
  by (simp add: same_ids_def)

lemma same_ids_upd_task:
  "(\<And>t. task_id (f t) = task_id t) \<Longrightarrow> same_ids s (upd_task s p f)"
  by (simp add: same_ids_def)

lemma same_ids_pick: "same_ids s (fst (snd (pick_task_for_cpu s cpu pl tk)))"
  using pick_task_for_cpu_fields [of s cpu pl tk]
  by (simp add: same_ids_def heap_frame_fields)

lemma same_ids_schedule_cpu: "same_ids (tl_sched lp) (tl_sched (schedule_cpu prev tk lp cpu))"
proof -
  let ?r = "pick_task_for_cpu (tl_sched lp) (int cpu) (tl_planned lp) tk"
  have "same_ids (tl_sched lp) (fst (snd ?r))"
    by (rule same_ids_pick)
  then show ?thesis
    by (auto simp: schedule_cpu_def Let_def same_ids_def split: option.splits)
qed

lemma same_ids_fold_schedule_cpu:
  "same_ids (tl_sched lp) (tl_sched (fold (\<lambda>cpu lp'. schedule_cpu prev tk lp' cpu) cs lp))"
proof (induction cs arbitrary: lp)
  case Nil
  then show ?case by simp
next
  case (Cons c cs)
  from Cons [of "schedule_cpu prev tk lp c"] same_ids_schedule_cpu [of lp prev tk c]
  show ?case by (auto intro: same_ids_trans)
qed

lemma same_ids_select_all: "same_ids s (tl_sched (select_all prev tk s))"
  using same_ids_fold_schedule_cpu
    [of "\<lparr> tl_sched = s, tl_planned = [], tl_assigned = replicate (length (all_tasks s)) False,
          tl_schedule = [] \<rparr>" prev tk "[0..<length (cpu_queues s)]"]
  by (simp add: select_all_def)

lemma map_cgroup_id_update:
  "cgroup_id cg = cgroup_id (cs ! c) \<Longrightarrow> map cgroup_id (cs[c := cg]) = map cgroup_id cs"
proof (cases "c < length cs")
  case True
  assume "cgroup_id cg = cgroup_id (cs ! c)"
  with True have "(map cgroup_id cs)[c := cgroup_id cg] = map cgroup_id cs"
    by (simp add: list_update_same_conv)
  then show ?thesis by (simp add: map_update)
next
  case False
  then show ?thesis by (simp add: list_update_beyond)
qed

lemma map_cgroup_id_charge_quota:
  "map cgroup_id (cgroups (charge_quota s p)) = map cgroup_id (cgroups s)"
  by (simp add: charge_quota_def Let_def map_cgroup_id_update cgroup_account_runtime_def
      split: option.splits)

lemma task_id_charge_vruntime: "task_id (mem (charge_vruntime s p) q) = task_id (mem s q)"
  by (simp add: charge_vruntime_def Let_def)

lemma task_id_burst_countdown: "task_id (mem (burst_countdown s p) q) = task_id (mem s q)"
  by (simp add: burst_countdown_def Let_def)

lemma same_ids_account_cpu: "same_ids s (account_cpu s i)"
  by (simp add: account_cpu_def Let_def same_ids_def map_cgroup_id_charge_quota
      task_id_charge_vruntime task_id_burst_countdown split: option.splits)

lemma same_ids_fold_account_cpu: "same_ids s (fold (\<lambda>i s'. account_cpu s' i) is s)"
proof (induction "is" arbitrary: s)
  case Nil
  then show ?case by simp
next
  case (Cons i "is")
  from Cons [of "account_cpu s i"] same_ids_account_cpu [of s i]
  show ?case by (auto intro: same_ids_trans)
qed

lemma same_ids_account_running: "same_ids s (account_running s)"
  by (simp add: account_running_def same_ids_fold_account_cpu)

lemma same_ids_refresh: "same_ids s (refresh_cgroup_periods s vt)"
  by (simp add: same_ids_def refresh_cgroup_periods_def Let_def refresh_cgroup_def
      cgroup_reset_period_def comp_def)

lemma same_ids_rebuild_step: "same_ids s (rebuild_step p s)"
  by (simp add: same_ids_def rebuild_step_def Let_def)

lemma same_ids_fold_rebuild: "same_ids s (fold rebuild_step ps s)"
proof (induction ps arbitrary: s)
  case Nil
  then show ?case by simp
next
  case (Cons p ps)
  from Cons [of "rebuild_step p s"] same_ids_rebuild_step [of s p]
  show ?case by (auto intro: same_ids_trans)
qed

lemma same_ids_rebuild: "same_ids s (rebuild_runnable_heap s)"
  using same_ids_fold_rebuild [of "s\<lparr>runnable_heap := []\<rparr>" "all_tasks s"]
  by (simp add: rebuild_runnable_heap_def same_ids_def)

lemma same_ids_clear_step: "same_ids s (clear_step a i s)"
  by (simp add: same_ids_def clear_step_def Let_def)

lemma same_ids_fold_clear: "same_ids s (fold (clear_step a) is s)"
proof (induction "is" arbitrary: s)
  case Nil
  then show ?case by simp
next
  case (Cons i "is")
  from Cons [of "clear_step a i s"] same_ids_clear_step [of s a i]
  show ?case by (auto intro: same_ids_trans)
qed

lemma same_ids_clear: "same_ids s (clear_unassigned s a)"
  by (simp add: clear_unassigned_def same_ids_fold_clear)

lemma same_ids_tick: "same_ids s (snd (scheduler_tick s vt))"
proof -
  let ?s0 = "s\<lparr>current_vtime := vt, preemptions := 0, migrations := 0\<rparr>"
  let ?s1 = "refresh_cgroup_periods ?s0 vt"
  let ?s2 = "account_running ?s1"
  let ?s3 = "rebuild_runnable_heap ?s2"
  let ?tk = "if (of_int (quanta ?s3) * 1000 :: rat) < 0 then 0 else of_int (quanta ?s3) * 1000"
  let ?lp = "select_all (cpu_queues ?s1) ?tk ?s3"
  have "same_ids s ?s0" by (simp add: same_ids_def)
  also have "same_ids ?s0 ?s1" by (rule same_ids_refresh)
  also have "same_ids ?s1 ?s2" by (rule same_ids_account_running)
  also have "same_ids ?s2 ?s3" by (rule same_ids_rebuild)
  also have "same_ids ?s3 (tl_sched ?lp)" by (rule same_ids_select_all)
  also have "same_ids (tl_sched ?lp) (clear_unassigned (tl_sched ?lp) (tl_assigned ?lp))"
    by (rule same_ids_clear)
  finally show ?thesis
    by (simp add: scheduler_tick_def Let_def)
qed

subsection \<open>Weights, admission tests and the cgroup registry\<close>

lemma sched_prio_to_weight_range:
  "\<forall>w \<in> set sched_prio_to_weight. 15 \<le> w \<and> w \<le> 88761"
  by (simp add: sched_prio_to_weight_def)

lemma nice_to_weight_range: "15 \<le> nice_to_weight n \<and> nice_to_weight n \<le> 88761"
proof -
  have "length sched_prio_to_weight = 40"
    by (simp add: sched_prio_to_weight_def)
  then have "nat ((if (if n < NICE_MIN then NICE_MIN else n) > NICE_MAX then NICE_MAX
      else (if n < NICE_MIN then NICE_MIN else n)) - NICE_MIN) < length sched_prio_to_weight"
    unfolding NICE_MIN_def NICE_MAX_def by (simp split: if_splits) linarith
  then have "nice_to_weight n \<in> set sched_prio_to_weight"
    unfolding nice_to_weight_def Let_def by (rule nth_mem)
  with sched_prio_to_weight_range show ?thesis by blast
qed

lemma int_of_llong_id: "- (2 ^ 31) \<le> x \<Longrightarrow> x < 2 ^ 31 \<Longrightarrow> int_of_llong x = x"
  by (simp add: int_of_llong_def)

lemma same_task_can_run:
  "same_task t t' \<Longrightarrow> cgroups s' = cgroups s \<Longrightarrow>
     can_task_run_on_cpu s' t' cpu = can_task_run_on_cpu s t cpu"
  using same_task_fields [of t t']
  by (simp add: can_task_run_on_cpu_def task_can_run_on_cpu_def scheduler_find_cgroup_def
      split: option.splits)

lemma same_task_quota_defers:
  "same_task t t' \<Longrightarrow> cgroups s' = cgroups s \<Longrightarrow>
     quota_defers s' pl tk t' = quota_defers s pl tk t"
  using same_task_fields [of t t']
  by (simp add: quota_defers_def scheduler_find_cgroup_def split: option.splits)

lemma set_butlast_update_last: "set (butlast (xs[i := last xs])) \<subseteq> set xs"
proof (cases "xs = []")
  case True
  then show ?thesis by simp
next
  case False
  then have "last xs \<in> set xs" by simp
  then have "set (xs[i := last xs]) \<subseteq> set xs"
    using set_update_subset_insert [of xs i "last xs"] by auto
  then show ?thesis
    using in_set_butlastD by fastforce
qed

lemma scheduler_remove_task_cgroups:
  "cgroups (snd (scheduler_remove_task s tid)) = cgroups s"
  by (simp add: scheduler_remove_task_def Let_def split: option.splits)

lemma process_event_keeps_absent:
  assumes "action e \<noteq> EVENT_CGROUP_CREATE \<or> ev_cgroup_id e \<noteq> cid"
    and "scheduler_find_cgroup s cid = None"
  shows "scheduler_find_cgroup (snd (scheduler_process_event s e)) cid = None"
proof -
  have n: "cid \<notin> cgroup_id ` set (cgroups s)"
    using assms(2) by (simp add: scheduler_find_cgroup_None)
  have "cgroup_id ` set (cgroups (snd (scheduler_process_event s e))) \<subseteq>
      cgroup_id ` set (cgroups s) \<or>
    (action e = EVENT_CGROUP_CREATE \<and>
     cgroup_id ` set (cgroups (snd (scheduler_process_event s e))) \<subseteq>
       insert (ev_cgroup_id e) (cgroup_id ` set (cgroups s)))"
  proof (cases "action e")
    case EVENT_CGROUP_CREATE
    then show ?thesis
      by (auto simp: scheduler_process_event_def scheduler_add_cgroup_def cgroup_create_def
          Let_def)
  next
    case EVENT_CGROUP_MODIFY
    show ?thesis
    proof (cases "scheduler_find_cgroup s (ev_cgroup_id e)")
      case None
      with EVENT_CGROUP_MODIFY show ?thesis
        by (simp add: scheduler_process_event_def)
    next
      case (Some c)
      then have c: "c < length (cgroups s)" "cgroup_id (cgroups s ! c) = ev_cgroup_id e"
        using scheduler_find_cgroup_Some by blast+
      have "map cgroup_id (cgroups (snd (scheduler_process_event s e))) = map cgroup_id (cgroups s)"
        using EVENT_CGROUP_MODIFY Some
        by (simp add: scheduler_process_event_def Let_def map_cgroup_id_update cgroup_modify_def
            cgroup_reset_period_def split: option.splits list.splits)
      then have "set (map cgroup_id (cgroups (snd (scheduler_process_event s e)))) =
          set (map cgroup_id (cgroups s))"
        by simp
      then show ?thesis by simp
    qed
  next
    case EVENT_CGROUP_DELETE
    then show ?thesis
      using set_butlast_update_last [of "cgroups s"]
      by (auto simp: scheduler_process_event_def scheduler_remove_cgroup_def Let_def
          split: option.splits)
  qed (simp_all add: scheduler_process_event_def scheduler_add_task_def
      scheduler_remove_task_cgroups Let_def split: option.splits)
  with assms(1) n have "cid \<notin> cgroup_id ` set (cgroups (snd (scheduler_process_event s e)))"
    by auto
  then show ?thesis
    by (simp add: scheduler_find_cgroup_None)
qed

lemma tick_keeps_absent:
  "scheduler_find_cgroup s cid = None \<Longrightarrow>
     scheduler_find_cgroup (snd (scheduler_tick s vt)) cid = None"
proof -
  assume a: "scheduler_find_cgroup s cid = None"
  have "map cgroup_id (cgroups (snd (scheduler_tick s vt))) = map cgroup_id (cgroups s)"
    using same_ids_tick [of s vt] by (simp add: same_ids_def)
  then have "set (map cgroup_id (cgroups (snd (scheduler_tick s vt)))) =
      set (map cgroup_id (cgroups s))"
    by simp
  with a show ?thesis
    by (simp add: scheduler_find_cgroup_None)
qed

subsection \<open>The accounting loop of a tick\<close>

lemma charge_vruntime_mem_other: "q \<noteq> p \<Longrightarrow> mem (charge_vruntime s q) p = mem s p"
  by (simp add: charge_vruntime_def Let_def)

lemma burst_countdown_mem_other: "q \<noteq> p \<Longrightarrow> mem (burst_countdown s q) p = mem s p"
  by (simp add: burst_countdown_def Let_def)

lemma burst_countdown_vruntime: "vruntime (mem (burst_countdown s q) p) = vruntime (mem s p)"
  by (simp add: burst_countdown_def Let_def)

lemma burst_countdown_state: "state (mem (burst_countdown s q) p) = state (mem s p)"
  by (simp add: burst_countdown_def Let_def)

lemma account_cpu_mem_other:
  "cpu_queues s ! i \<noteq> Some p \<Longrightarrow> mem (account_cpu s i) p = mem s p"
  by (cases "cpu_queues s ! i")
    (simp_all add: account_cpu_def Let_def charge_vruntime_mem_other burst_countdown_mem_other)

lemma account_cpu_not_running:
  "cpu_queues s ! i = Some p \<Longrightarrow> state (mem s p) \<noteq> TASK_STATE_RUNNING \<Longrightarrow>
     mem (account_cpu s i) = mem s"
  by (simp add: account_cpu_def Let_def)

lemma account_cpu_vruntime:
  "cpu_queues s ! i = Some p \<Longrightarrow> state (mem s p) = TASK_STATE_RUNNING \<Longrightarrow>
     vruntime (mem (account_cpu s i) p) =
       (if is_burst (mem s p) then vruntime (mem s p)
        else fl (vruntime (mem s p) +
          calc_vruntime_delta (of_int (quanta s)) (get_effective_task_weight s (mem s p))))"
  by (simp add: account_cpu_def Let_def burst_countdown_vruntime charge_vruntime_def)

lemma account_cpu_state:
  "cpu_queues s ! i = Some p \<Longrightarrow> state (mem s p) = TASK_STATE_RUNNING \<Longrightarrow>
     state (mem (account_cpu s i) p) = TASK_STATE_RUNNABLE"
  by (simp add: account_cpu_def Let_def)

lemma account_cpu_cgroups:
  "cpu_queues s ! i = Some p \<Longrightarrow> state (mem s p) = TASK_STATE_RUNNING \<Longrightarrow>
     cgroups (account_cpu s i) = cgroups (charge_quota s p)"
  by (simp add: account_cpu_def Let_def charge_quota_def charge_vruntime_def
      scheduler_find_cgroup_def split: option.splits)

text \<open>A task that is in a burst whenever it is running keeps its vruntime in every step of
  the accounting loop, and stays such a task.\<close>

lemma account_cpu_burst_invariant:
  assumes "vruntime (mem s p) = v"
    and "state (mem s p) = TASK_STATE_RUNNING \<longrightarrow> is_burst (mem s p)"
  shows "vruntime (mem (account_cpu s i) p) = v \<and>
    (state (mem (account_cpu s i) p) = TASK_STATE_RUNNING \<longrightarrow> is_burst (mem (account_cpu s i) p))"
proof (cases "cpu_queues s ! i = Some p")
  case False
  with assms show ?thesis by (simp add: account_cpu_mem_other)
next
  case True
  show ?thesis
  proof (cases "state (mem s p) = TASK_STATE_RUNNING")
    case False
    with True assms show ?thesis by (simp add: account_cpu_not_running)
  next
    case running: True
    with True assms show ?thesis
      by (simp add: account_cpu_vruntime account_cpu_state)
  qed
qed

lemma fold_account_cpu_burst_invariant:
  "vruntime (mem s p) = v \<Longrightarrow>
   state (mem s p) = TASK_STATE_RUNNING \<longrightarrow> is_burst (mem s p) \<Longrightarrow>
     vruntime (mem (fold (\<lambda>i s'. account_cpu s' i) is s) p) = v"
proof (induction "is" arbitrary: s)
  case Nil
  then show ?case by simp
next
  case (Cons i "is")
  from account_cpu_burst_invariant [OF Cons.prems, of i] Cons.IH [of "account_cpu s i"]
  show ?case by simp
qed

lemma charge_quota_used:
  assumes "task_cgroup_id (mem s p) \<noteq> []"
    and "scheduler_find_cgroup s (task_cgroup_id (mem s p)) = Some c"
  shows "quota_used (cgroups (charge_quota s p) ! c) =
    (if cpu_quota_us (cgroups s ! c) > 0 \<and> quanta s > 0
     then quota_used (cgroups s ! c) + of_int (quanta s) * 1000
     else quota_used (cgroups s ! c))"
proof -
  have "c < length (cgroups s)"
    using assms(2) scheduler_find_cgroup_Some by blast
  with assms show ?thesis
    by (simp add: charge_quota_def Let_def cgroup_account_runtime_def)
qed

lemma c_div_nonneg: "0 \<le> a \<Longrightarrow> 0 < b \<Longrightarrow> c_div a b = a div b"
  by (cases "a = 0") (simp_all add: c_div_def)

lemma effective_weight_registered:
  assumes "task_cgroup_id t \<noteq> []"
    and "scheduler_find_cgroup s (task_cgroup_id t) = Some c"
    and "cpu_shares (cgroups s ! c) > 0" and "0 \<le> weight t"
    and "weight t * cpu_shares (cgroups s ! c) div 1024 < 2 ^ 31"
  shows "get_effective_task_weight s t =
    max 1 (weight t * cpu_shares (cgroups s ! c) div 1024)"
proof -
  let ?x = "weight t * cpu_shares (cgroups s ! c)"
  have "0 \<le> ?x" using assms(3,4) by simp
  then have d: "c_div ?x DEFAULT_CPU_SHARES = ?x div 1024"
    by (simp add: c_div_nonneg DEFAULT_CPU_SHARES_def)
  have "- (2 ^ 31) \<le> max 1 (?x div 1024)" "max 1 (?x div 1024) < 2 ^ 31"
    using assms(5) by simp_all
  then have "int_of_llong (max 1 (?x div 1024)) = max 1 (?x div 1024)"
    by (rule int_of_llong_id)
  moreover have "(if c_div ?x DEFAULT_CPU_SHARES < 1 then 1 else c_div ?x DEFAULT_CPU_SHARES) =
      max 1 (?x div 1024)"
    using d by (simp add: max_def)
  ultimately show ?thesis
    using assms(1,2,3) by (simp add: get_effective_task_weight_def Let_def)
qed

lemma effective_weight_unregistered:
  assumes "scheduler_find_cgroup s (task_cgroup_id t) = None"
    and "1 \<le> weight t" and "weight t < 2 ^ 31"
  shows "get_effective_task_weight s t = weight t"
  using assms by (simp add: get_effective_task_weight_def Let_def int_of_llong_id)

text \<open>The running minimum of \<^verbatim>\<open>get_min_vruntime\<close> is below its start value and below the
  vruntime of every Runnable task it has seen.\<close>

lemma fold_min_vr_le_init:
  "fold (\<lambda>p acc. min_vr_step (m p) acc) ps a \<le> a"
proof (induction ps arbitrary: a)
  case Nil
  show ?case by simp
next
  case (Cons p ps)
  have "fold (\<lambda>p acc. min_vr_step (m p) acc) ps (min_vr_step (m p) a) \<le> min_vr_step (m p) a"
    by (rule Cons)
  also have "min_vr_step (m p) a \<le> a" by (simp add: min_vr_step_def)
  finally show ?case by simp
qed

lemma fold_min_vr_le_member:
  "p \<in> set ps \<Longrightarrow> state (m p) = TASK_STATE_RUNNABLE \<Longrightarrow>
     fold (\<lambda>p acc. min_vr_step (m p) acc) ps a \<le> vruntime (m p)"
proof (induction ps arbitrary: a)
  case Nil
  then show ?case by simp
next
  case (Cons q ps)
  show ?case
  proof (cases "q = p")
    case True
    have "fold (\<lambda>p acc. min_vr_step (m p) acc) ps (min_vr_step (m p) a) \<le> min_vr_step (m p) a"
      by (rule fold_min_vr_le_init)
    also have "min_vr_step (m p) a \<le> vruntime (m p)"
      using Cons.prems(2) by (simp add: min_vr_step_def)
    finally show ?thesis using True by simp
  next
    case False
    with Cons.prems have "p \<in> set ps" by simp
    from Cons.IH [OF this Cons.prems(2)] show ?thesis by simp
  qed
qed

lemma effective_weight_empty_id:
  assumes "task_cgroup_id t = []" and "1 \<le> weight t" and "weight t < 2 ^ 31"
  shows "get_effective_task_weight s t = weight t"
  using assms by (simp add: get_effective_task_weight_def Let_def int_of_llong_id)

text \<open>
  The charge that \<^verbatim>\<open>calc_vruntime_delta\<close> computes in two rounded operations differs from
  the exact quotient by at most \<open>2 ^ - 51\<close> of it.
\<close>

lemma calc_vruntime_delta_error:
  assumes w: "1 \<le> w" "w < 2 ^ 31" and q: "1 \<le> q"
  shows "\<bar>calc_vruntime_delta (of_int q) w - of_int q * (1024 / of_int w)\<bar>
    \<le> of_int q * (1024 / of_int w) / 2 ^ 51"
proof -
  define r :: rat where "r = 1024 / of_int w"
  define k :: rat where "k = of_int q"
  define d :: rat where "d = r / 2 ^ 53"
  have wr: "(1::rat) \<le> of_int w" "(of_int w :: rat) < 2 ^ 31"
    using w by (simp_all add: of_int_less_iff [of w "2 ^ 31", where 'a = rat, simplified])
  have k1: "1 \<le> k" using q by (simp add: k_def)
  then have kpos: "0 < k" by simp
  have rpos: "0 < r" using wr by (simp add: r_def)
  have "1024 / 2 ^ 31 \<le> r"
    unfolding r_def using wr by (intro divide_left_mono) simp_all
  then have rlo: "1 / 2 ^ 21 \<le> r" by simp
  have p1: "(2::rat) powi (- 1022) \<le> 1 / 2 ^ 22"
    by (simp add: power_int_minus field_simps)
  have n1: "2 powi (- 1022) \<le> \<bar>r\<bar>" using rlo rpos p1 by simp
  have e1: "\<bar>fl r - r\<bar> \<le> d"
    using fl_relative_error [OF n1] rpos by (simp add: d_def)
  have dpos: "0 < d" using rpos by (simp add: d_def)
  have dr: "d \<le> r / 2" using rpos by (simp add: d_def)
  have flr: "r - d \<le> fl r" "fl r \<le> r + d"
    using e1 by linarith+
  have flr_lo: "r / 2 \<le> fl r" using flr(1) dr by linarith
  then have flr_pos: "0 < fl r" using rpos by linarith
  define y :: rat where "y = k * fl r"
  have "1 * fl r \<le> k * fl r" using k1 flr_pos by (intro mult_right_mono) simp_all
  then have ylo: "fl r \<le> y" by (simp add: y_def)
  then have ypos: "0 < y" using flr_pos by linarith
  have "1 / 2 ^ 22 \<le> r / 2" using rlo by simp
  then have n2: "2 powi (- 1022) \<le> \<bar>y\<bar>" using p1 flr_lo ylo ypos by linarith
  have e2: "\<bar>fl y - y\<bar> \<le> y / 2 ^ 53"
    using fl_relative_error [OF n2] ypos by simp
  have "y - k * r = k * (fl r - r)"
    by (simp add: y_def right_diff_distrib)
  then have "\<bar>y - k * r\<bar> = k * \<bar>fl r - r\<bar>"
    using kpos by (simp add: abs_mult)
  also have "\<dots> \<le> k * d"
    using e1 kpos by (intro mult_left_mono) simp_all
  finally have e3: "\<bar>y - k * r\<bar> \<le> k * d" .
  have kd: "k * d = k * r / 2 ^ 53" by (simp add: d_def)
  have "y \<le> k * (r + d)"
    unfolding y_def using flr(2) kpos by (intro mult_left_mono) simp_all
  also have "\<dots> \<le> k * (2 * r)"
    using dr rpos kpos by (intro mult_left_mono) simp_all
  finally have yhi: "y \<le> 2 * (k * r)" by simp
  have "y / 2 ^ 53 \<le> 2 * (k * r) / 2 ^ 53"
    using yhi by (intro divide_right_mono) simp_all
  then have e4: "\<bar>fl y - y\<bar> \<le> 2 * (k * r) / 2 ^ 53" using e2 by linarith
  define z :: rat where "z = k * r"
  have zpos: "0 < z" using kpos rpos by (simp add: z_def)
  have "\<bar>fl y - z\<bar> \<le> \<bar>fl y - y\<bar> + \<bar>y - z\<bar>" by simp
  also have "\<dots> \<le> 2 * z / 2 ^ 53 + z / 2 ^ 53"
    using e4 e3 kd by (simp add: z_def)
  also have "\<dots> \<le> z / 2 ^ 51"
    using zpos by simp
  finally show ?thesis
    by (simp add: calc_vruntime_delta_def NICE_0_WEIGHT_def y_def k_def r_def z_def)
qed

text \<open>
  For an effective weight and a quantum that a C \<^verbatim>\<open>int\<close> holds and a vruntime of moderate
  size, the three operations of the vruntime charge yield finite doubles.
\<close>

lemma vruntime_charge_finite:
  assumes e: "1 \<le> e" and q: "\<bar>q\<bar> \<le> 2 ^ 31" and v: "\<bar>v\<bar> \<le> 2 ^ 1000"
  shows "\<bar>fl (1024 / of_int e)\<bar> \<le> DBL_MAX"
    and "\<bar>calc_vruntime_delta (of_int q) e\<bar> \<le> DBL_MAX"
    and "\<bar>fl (v + calc_vruntime_delta (of_int q) e)\<bar> \<le> DBL_MAX"
proof -
  define r :: rat where "r = fl (1024 / of_int e)"
  define d :: rat where "d = fl (of_int q * r)"
  have er: "(1::rat) \<le> of_int e" using e by simp
  then have "\<bar>1024 / rat_of_int e\<bar> \<le> 1024"
    by (simp add: field_simps)
  then have r: "\<bar>r\<bar> \<le> 2049"
    using fl_abs_le [of "1024 / of_int e"] by (simp add: r_def)
  have qr: "\<bar>rat_of_int q\<bar> \<le> 2 ^ 31"
    using q by (simp add: of_int_le_iff [of "\<bar>q\<bar>" "2 ^ 31", where 'a = rat, simplified])
  have "\<bar>of_int q * r\<bar> = \<bar>of_int q\<bar> * \<bar>r\<bar>" by (simp add: abs_mult)
  also have "\<dots> \<le> 2 ^ 31 * 2049"
    using qr r by (intro mult_mono) simp_all
  finally have "\<bar>of_int q * r\<bar> \<le> 2 ^ 31 * 2049" .
  then have d: "\<bar>d\<bar> \<le> 2 ^ 44"
    using fl_abs_le [of "of_int q * r"] by (simp add: d_def)
  have "\<bar>v + d\<bar> \<le> \<bar>v\<bar> + \<bar>d\<bar>" by (rule abs_triangle_ineq)
  then have "\<bar>v + d\<bar> \<le> 2 ^ 1000 + 2 ^ 44" using v d by (rule order_trans [OF _ add_mono])
  then have "2 * \<bar>v + d\<bar> + 1 \<le> 2 * (2 ^ 1000 + 2 ^ 44) + 1" by simp
  then have s: "\<bar>fl (v + d)\<bar> \<le> 2 * (2 ^ 1000 + 2 ^ 44) + 1"
    using fl_abs_le [of "v + d"] by (rule order_trans [rotated])
  have c: "calc_vruntime_delta (of_int q) e = d"
    by (simp add: calc_vruntime_delta_def NICE_0_WEIGHT_def d_def r_def)
  have m1: "(2049::rat) \<le> DBL_MAX" "(2 ^ 44 :: rat) \<le> DBL_MAX"
    "(2 * (2 ^ 1000 + 2 ^ 44) + 1 :: rat) \<le> DBL_MAX"
    by (simp_all add: DBL_MAX_value)
  show "\<bar>fl (1024 / of_int e)\<bar> \<le> DBL_MAX"
    using r m1(1) by (simp add: r_def)
  show "\<bar>calc_vruntime_delta (of_int q) e\<bar> \<le> DBL_MAX"
    using d m1(2) c by simp
  show "\<bar>fl (v + calc_vruntime_delta (of_int q) e)\<bar> \<le> DBL_MAX"
    using s m1(3) c by simp
qed

subsection \<open>The tasks held by the heap\<close>

lemma mset_heap_swap:
  "i < length (snd hs) \<Longrightarrow> j < length (snd hs) \<Longrightarrow> mset (snd (heap_swap hs i j)) = mset (snd hs)"
  by (simp add: heap_swap_def Let_def mset_swap)

lemma mset_heap_bubble_up:
  "idx < length (snd hs) \<Longrightarrow> mset (snd (heap_bubble_up hs idx)) = mset (snd hs)"
proof (induction hs idx rule: heap_bubble_up.induct)
  case (1 hs idx)
  show ?case
  proof (cases "idx > 0 \<and> vruntime (fst hs (snd hs ! parent idx)) > vruntime (fst hs (snd hs ! idx))")
    case True
    have p: "parent idx < length (snd hs)"
      using "1.prems" by (simp add: parent_def)
    have "mset (snd (heap_bubble_up (heap_swap hs idx (parent idx)) (parent idx))) =
        mset (snd (heap_swap hs idx (parent idx)))"
      using "1.IH" [OF True] p by simp
    also have "\<dots> = mset (snd hs)"
      using "1.prems" p by (rule mset_heap_swap)
    finally show ?thesis
      using True by (subst heap_bubble_up.simps) simp
  next
    case False
    then show ?thesis by (subst heap_bubble_up.simps) auto
  qed
qed

lemma mset_heap_bubble_down: "mset (snd (heap_bubble_down hs idx)) = mset (snd hs)"
proof (induction hs idx rule: heap_bubble_down.induct)
  case (1 hs idx)
  let ?m = "fst hs"
  let ?h = "snd hs"
  let ?m1 = "if left_child idx < length ?h \<and>
                        vruntime (?m (?h ! left_child idx)) < vruntime (?m (?h ! idx))
                     then left_child idx else idx"
  let ?min = "if right_child idx < length ?h \<and>
                       vruntime (?m (?h ! right_child idx)) < vruntime (?m (?h ! ?m1))
                    then right_child idx else ?m1"
  show ?case
  proof (cases "?min \<noteq> idx")
    case True
    then have lt: "?min < length ?h" "idx < length ?h"
      by (auto simp: left_child_def right_child_def split: if_splits)
    have "mset (snd (heap_bubble_down (heap_swap hs idx ?min) ?min)) =
        mset (snd (heap_swap hs idx ?min))"
      using "1.IH" [OF refl refl refl refl refl True] .
    also have "\<dots> = mset ?h"
      using lt by (simp add: mset_heap_swap)
    finally show ?thesis
      using True by (subst heap_bubble_down.simps) (simp add: Let_def)
  next
    case False
    then show ?thesis
      by (subst heap_bubble_down.simps) (simp add: Let_def)
  qed
qed

lemma mset_heap_insert: "mset (snd (heap_insert hs t)) = add_mset t (mset (snd hs))"
  by (simp add: heap_insert_def Let_def mset_heap_bubble_up)

lemma mset_heap_extract_min:
  assumes "snd hs \<noteq> []"
  shows "add_mset (snd hs ! 0) (mset (snd (snd (heap_extract_min hs)))) = mset (snd hs)"
proof -
  let ?h = "snd hs"
  let ?sz = "length ?h - 1"
  have h: "?h = take ?sz ?h @ [?h ! ?sz]"
    using assms by (metis One_nat_def append_butlast_last_id butlast_conv_take last_conv_nth)
  show ?thesis
  proof (cases "?sz > 0")
    case True
    then have "mset ((take ?sz ?h)[0 := ?h ! ?sz]) =
        add_mset (?h ! ?sz) (mset (take ?sz ?h) - {#take ?sz ?h ! 0#})"
      by (simp add: mset_update)
    moreover have "take ?sz ?h ! 0 = ?h ! 0" using True by simp
    moreover have "take ?sz ?h ! 0 \<in> set (take ?sz ?h)"
      by (rule nth_mem) (use True in simp)
    then have "take ?sz ?h ! 0 \<in># mset (take ?sz ?h)" by simp
    ultimately have "add_mset (?h ! 0) (mset ((take ?sz ?h)[0 := ?h ! ?sz])) =
        add_mset (?h ! ?sz) (mset (take ?sz ?h))"
      by simp
    also have "\<dots> = mset ?h"
      using h by (metis mset.simps(2) mset_append union_mset_add_mset_right add.right_neutral mset.simps(1))
    finally show ?thesis
      using assms True by (simp add: heap_extract_min_def Let_def mset_heap_bubble_down)
  next
    case False
    then have "length ?h = 1" using assms by (cases ?h) auto
    then have "?h = [?h ! 0]" by (cases ?h) auto
    then have "mset ?h = {#?h ! 0#}" by (metis mset.simps(1) mset.simps(2))
    with assms False show ?thesis
      by (simp add: heap_extract_min_def Let_def)
  qed
qed

lemma mset_sched_heap_insert:
  "mset (runnable_heap (sched_heap_insert s p)) = add_mset p (mset (runnable_heap s))"
  by (simp add: sched_heap_insert_def mset_heap_insert)

lemma mset_fold_reinsert:
  "mset (runnable_heap (fold (\<lambda>p s'. sched_heap_insert s' p) ps s)) =
     mset ps + mset (runnable_heap s)"
  by (induction ps arbitrary: s) (simp_all add: mset_sched_heap_insert)

lemma opt_mset_simps [simp]: "opt_mset None = {#}" "opt_mset (Some p) = {#p#}"
  by (simp_all add: opt_mset_def)

lemma mset_pick_loop:
  "opt_mset (fst (pick_loop s cpu pl tk d)) +
     mset (runnable_heap (fst (snd (pick_loop s cpu pl tk d)))) +
     mset (snd (snd (pick_loop s cpu pl tk d))) =
   mset (runnable_heap s) + mset d"
proof (induction rule: pick_loop_rule
    [where P = "\<lambda>s d r. opt_mset (fst r) + mset (runnable_heap (fst (snd r))) + mset (snd (snd r)) =
      mset (runnable_heap s) + mset d"])
  case (empty s d)
  then show ?case by simp
next
  case (deferred s d c s1)
  have "add_mset c (mset (runnable_heap s1)) = mset (runnable_heap s)"
    using deferred(1,2,3) mset_heap_extract_min [of "hs_of s"]
    by (simp add: heap_is_empty_def)
  with deferred(5) show ?case by (simp add: add_mset_commute)
next
  case (select s d c s1)
  have "add_mset c (mset (runnable_heap s1)) = mset (runnable_heap s)"
    using select(1,2,3) mset_heap_extract_min [of "hs_of s"]
    by (simp add: heap_is_empty_def)
  then show ?case by simp
qed

lemma mset_pick_task_for_cpu:
  "opt_mset (fst (pick_task_for_cpu s cpu pl tk)) +
     mset (runnable_heap (fst (snd (pick_task_for_cpu s cpu pl tk)))) = mset (runnable_heap s)"
  using mset_pick_loop [of s cpu pl tk "[]"]
  by (simp add: pick_task_for_cpu_def Let_def mset_fold_reinsert ac_simps)

lemma pick_task_for_cpu_selected:
  assumes "fst (pick_task_for_cpu s cpu pl tk) = Some p" and "distinct (runnable_heap s)"
  shows "p \<in> set (runnable_heap s)"
    and "p \<notin> set (runnable_heap (fst (snd (pick_task_for_cpu s cpu pl tk))))"
    and "distinct (runnable_heap (fst (snd (pick_task_for_cpu s cpu pl tk))))"
    and "set (runnable_heap (fst (snd (pick_task_for_cpu s cpu pl tk)))) \<subseteq> set (runnable_heap s)"
proof -
  let ?h' = "runnable_heap (fst (snd (pick_task_for_cpu s cpu pl tk)))"
  have m: "add_mset p (mset ?h') = mset (runnable_heap s)"
    using mset_pick_task_for_cpu [of s cpu pl tk] assms(1) by simp
  then have d: "distinct (p # ?h')"
    using assms(2) by (metis distinct_count_atmost_1 mset.simps(2) set_mset_mset)
  have s: "set (p # ?h') = set (runnable_heap s)"
    using m by (metis mset.simps(2) set_mset_mset)
  from s show "p \<in> set (runnable_heap s)" by auto
  from d show "p \<notin> set ?h'" by simp
  from d show "distinct ?h'" by simp
  from s show "set ?h' \<subseteq> set (runnable_heap s)" by auto
qed

lemma pick_task_for_cpu_none:
  assumes "fst (pick_task_for_cpu s cpu pl tk) = None"
  shows "mset (runnable_heap (fst (snd (pick_task_for_cpu s cpu pl tk)))) = mset (runnable_heap s)"
  using mset_pick_task_for_cpu [of s cpu pl tk] assms by simp

lemma rebuild_step_heap:
  "mset (runnable_heap (rebuild_step p s)) =
     (if state (mem s p) = TASK_STATE_RUNNABLE then add_mset p (mset (runnable_heap s))
      else mset (runnable_heap s))"
  by (simp add: rebuild_step_def Let_def mset_sched_heap_insert)

lemma fold_rebuild_heap_subset:
  "set (runnable_heap (fold rebuild_step ps s)) \<subseteq> set (runnable_heap s) \<union> set ps"
proof (induction ps arbitrary: s)
  case Nil
  then show ?case by simp
next
  case (Cons p ps)
  have "set (runnable_heap (rebuild_step p s)) \<subseteq> insert p (set (runnable_heap s))"
    using rebuild_step_heap [of p s]
    by (metis (full_types) set_mset_mset set_mset_add_mset_insert subset_insertI subset_refl)
  with Cons [of "rebuild_step p s"] show ?case by auto
qed

lemma fold_rebuild_heap_distinct:
  "distinct ps \<Longrightarrow> distinct (runnable_heap s) \<Longrightarrow> set (runnable_heap s) \<inter> set ps = {} \<Longrightarrow>
     distinct (runnable_heap (fold rebuild_step ps s))"
proof (induction ps arbitrary: s)
  case Nil
  then show ?case by simp
next
  case (Cons p ps)
  have sub: "set (runnable_heap (rebuild_step p s)) \<subseteq> insert p (set (runnable_heap s))"
    using rebuild_step_heap [of p s]
    by (metis (full_types) set_mset_mset set_mset_add_mset_insert subset_insertI subset_refl)
  have "p \<notin> set (runnable_heap s)" using Cons.prems(3) by auto
  then have "distinct (p # runnable_heap s)" using Cons.prems(2) by simp
  then have d: "distinct (runnable_heap (rebuild_step p s))"
    using rebuild_step_heap [of p s] Cons.prems(2)
    by (metis (full_types) distinct_count_atmost_1 mset.simps(2) set_mset_mset)
  have "set (runnable_heap (rebuild_step p s)) \<inter> set ps = {}"
    using sub Cons.prems(1,3) by auto
  with Cons.IH [of "rebuild_step p s"] Cons.prems(1) d show ?case by simp
qed

lemma rebuild_heap_distinct:
  "distinct (all_tasks s) \<Longrightarrow> distinct (runnable_heap (rebuild_runnable_heap s))"
  using fold_rebuild_heap_distinct [of "all_tasks s" "s\<lparr>runnable_heap := []\<rparr>"]
  by (simp add: rebuild_runnable_heap_def)

lemma rebuild_heap_subset:
  "set (runnable_heap (rebuild_runnable_heap s)) \<subseteq> set (all_tasks s)"
  using fold_rebuild_heap_subset [of "all_tasks s" "s\<lparr>runnable_heap := []\<rparr>"]
  by (simp add: rebuild_runnable_heap_def)

subsection \<open>The registry of a reachable scheduler\<close>

lemma distinct_butlast_update_last:
  "distinct xs \<Longrightarrow> distinct (butlast (xs[i := last xs]))"
proof (cases "xs = []")
  case True
  then show ?thesis by simp
next
  case False
  assume d: "distinct xs"
  have l: "last xs \<notin> set (butlast xs)"
    using d False by (metis append_butlast_last_id distinct_append disjoint_iff list.set_intros(1))
  show ?thesis
  proof (cases "i = length xs - 1")
    case True
    then show ?thesis using d by (simp add: butlast_list_update distinct_butlast)
  next
    case False
    then have "butlast (xs[i := last xs]) = (butlast xs)[i := last xs]"
      by (simp add: butlast_list_update)
    moreover have "distinct ((butlast xs)[i := last xs])"
      using d l by (simp add: distinct_list_update distinct_butlast)
    ultimately show ?thesis by simp
  qed
qed

lemma scheduler_remove_task_registry:
  "all_tasks (snd (scheduler_remove_task s tid)) = all_tasks s \<or>
   (\<exists>i. all_tasks (snd (scheduler_remove_task s tid)) = butlast ((all_tasks s)[i := last (all_tasks s)]))"
  by (auto simp: scheduler_remove_task_def Let_def split: option.splits)

lemma scheduler_remove_task_next_ptr:
  "next_ptr (snd (scheduler_remove_task s tid)) = next_ptr s"
  by (simp add: scheduler_remove_task_def Let_def split: option.splits)

lemma registry_ok_shrink:
  assumes "registry_ok s" and "next_ptr s' = next_ptr s"
    and "all_tasks s' = all_tasks s \<or>
      (\<exists>i. all_tasks s' = butlast ((all_tasks s)[i := last (all_tasks s)]))"
  shows "registry_ok s'"
proof -
  have "set (all_tasks s') \<subseteq> set (all_tasks s)"
    using assms(3) by (auto dest: subsetD [OF set_butlast_update_last])
  moreover have "distinct (all_tasks s')"
    using assms(1,3) by (auto simp: registry_ok_def intro: distinct_butlast_update_last)
  ultimately show ?thesis
    using assms(1,2) by (auto simp: registry_ok_def)
qed

lemma registry_ok_event: "registry_ok s \<Longrightarrow> registry_ok (snd (scheduler_process_event s e))"
proof (cases "action e")
  case EVENT_TASK_CREATE
  assume "registry_ok s"
  with EVENT_TASK_CREATE show ?thesis
    by (auto simp: registry_ok_def scheduler_process_event_def scheduler_add_task_def Let_def
        less_Suc_eq)
next
  case EVENT_TASK_EXIT
  assume r: "registry_ok s"
  show ?thesis
  proof (cases "scheduler_find_task s (ev_task_id e)")
    case None
    with EVENT_TASK_EXIT r show ?thesis by (simp add: scheduler_process_event_def)
  next
    case (Some p)
    let ?s1 = "upd_task s p (\<lambda>t. t\<lparr>state := TASK_STATE_EXITED\<rparr>)"
    have "registry_ok ?s1" using r by (simp add: registry_ok_def)
    then have "registry_ok (snd (scheduler_remove_task ?s1 (ev_task_id e)))"
      by (rule registry_ok_shrink)
        (rule scheduler_remove_task_next_ptr scheduler_remove_task_registry)+
    with EVENT_TASK_EXIT Some show ?thesis
      by (simp add: scheduler_process_event_def Let_def)
  qed
qed (simp_all add: registry_ok_def scheduler_process_event_def scheduler_add_cgroup_def
    scheduler_remove_cgroup_def Let_def split: option.splits)

lemma registry_ok_tick: "registry_ok s \<Longrightarrow> registry_ok (snd (scheduler_tick s vt))"
  using same_ids_tick [of s vt] by (simp add: registry_ok_def same_ids_def)

lemma reachable_registry_ok: "reachable s \<Longrightarrow> registry_ok s"
proof (induction rule: reachable.induct)
  case (init n q)
  show ?case by (simp add: registry_ok_def scheduler_init_def)
next
  case (event s e)
  then show ?case by (simp add: registry_ok_event)
next
  case (tick s vt)
  then show ?case by (simp add: registry_ok_tick)
qed

lemma reachable_process_events: "reachable s \<Longrightarrow> reachable (snd (process_events s es))"
  by (induction es arbitrary: s) (simp_all add: Let_def reachable.event)

lemma reachable_run_frame: "reachable s \<Longrightarrow> reachable (snd (snd (run_frame s tf)))"
  by (simp add: run_frame_def Let_def reachable.tick reachable_process_events)

lemma reachable_run_frames: "reachable s \<Longrightarrow> reachable (snd (run_frames s tfs))"
  by (induction tfs arbitrary: s) (simp_all add: Let_def reachable_run_frame)

lemma reachable_cgroups_bound: "reachable s \<Longrightarrow> length (cgroups s) \<le> MAX_CGROUPS"
proof (induction rule: reachable.induct)
  case (init n q)
  show ?case by (simp add: scheduler_init_def MAX_CGROUPS_def)
next
  case (event s e)
  then show ?case
    by (cases "action e")
      (auto simp: scheduler_process_event_def scheduler_add_cgroup_def scheduler_add_task_def
        scheduler_remove_cgroup_def scheduler_remove_task_cgroups Let_def
        split: option.splits)
next
  case (tick s vt)
  have "map cgroup_id (cgroups (snd (scheduler_tick s vt))) = map cgroup_id (cgroups s)"
    using same_ids_tick [of s vt] by (simp add: same_ids_def)
  then have "length (cgroups (snd (scheduler_tick s vt))) = length (cgroups s)"
    by (rule map_eq_imp_length_eq)
  with tick show ?case by simp
qed

subsection \<open>The invariant of the per-CPU selection\<close>

lemma selection_frame_refl [simp]: "selection_frame s s"
  by (simp add: selection_frame_def)

lemma selection_frame_trans [trans]:
  "selection_frame s s' \<Longrightarrow> selection_frame s' s'' \<Longrightarrow> selection_frame s s''"
  by (simp add: selection_frame_def)

lemma selection_frame_pick:
  "selection_frame s (fst (snd (pick_task_for_cpu s cpu pl tk)))"
  using pick_task_for_cpu_fields [of s cpu pl tk]
  by (simp add: selection_frame_def heap_frame_fields)

lemma schedule_cpu_None:
  assumes "fst (pick_task_for_cpu (tl_sched lp) (int k) (tl_planned lp) tk) = None"
  shows "schedule_cpu prev tk lp k =
    \<lparr> tl_sched = fst (snd (pick_task_for_cpu (tl_sched lp) (int k) (tl_planned lp) tk)),
      tl_planned = snd (snd (pick_task_for_cpu (tl_sched lp) (int k) (tl_planned lp) tk)),
      tl_assigned = tl_assigned lp, tl_schedule = tl_schedule lp @ [''idle''] \<rparr>"
  using assms by (simp add: schedule_cpu_def Let_def)

lemma schedule_cpu_Some:
  assumes "fst (pick_task_for_cpu (tl_sched lp) (int k) (tl_planned lp) tk) = Some best"
    and "s' = fst (snd (pick_task_for_cpu (tl_sched lp) (int k) (tl_planned lp) tk))"
  shows "cpu_queues (tl_sched (schedule_cpu prev tk lp k)) = (cpu_queues s')[k := Some best]"
    and "runnable_heap (tl_sched (schedule_cpu prev tk lp k)) = runnable_heap s'"
    and "selection_frame s' (tl_sched (schedule_cpu prev tk lp k))"
    and "tl_schedule (schedule_cpu prev tk lp k) = tl_schedule lp @ [task_id (mem s' best)]"
    and "tl_planned (schedule_cpu prev tk lp k) =
           snd (snd (pick_task_for_cpu (tl_sched lp) (int k) (tl_planned lp) tk))"
  using assms
  by (simp_all add: schedule_cpu_def Let_def selection_frame_def split: option.splits)


lemma slot_id_cong:
  "cpu_queues s' ! c = cpu_queues s ! c \<Longrightarrow> selection_frame s s' \<Longrightarrow>
     slot_id s' c = slot_id s c"
  by (simp add: slot_id_def selection_frame_def split: option.splits)

lemma select_inv_step:
  assumes inv: "select_inv A n lp k" and k: "k < n"
  shows "select_inv A n (schedule_cpu prev tk lp k) (Suc k)"
proof -
  let ?s = "tl_sched lp"
  let ?r = "pick_task_for_cpu ?s (int k) (tl_planned lp) tk"
  let ?s' = "fst (snd ?r)"
  let ?lp' = "schedule_cpu prev tk lp k"
  have len: "length (cpu_queues ?s) = n" and dist: "distinct (runnable_heap ?s)"
    and sub: "set (runnable_heap ?s) \<subseteq> A"
    and occ: "\<And>c p. c < k \<Longrightarrow> cpu_queues ?s ! c = Some p \<Longrightarrow>
        p \<notin> set (runnable_heap ?s) \<and> p \<in> A"
    and rest: "\<And>c. k \<le> c \<Longrightarrow> c < n \<Longrightarrow> cpu_queues ?s ! c = None"
    and excl: "slots_exclusive ?s k"
    and slen: "length (tl_schedule lp) = k"
    and sids: "\<And>c. c < k \<Longrightarrow> tl_schedule lp ! c = slot_id ?s c"
    using inv by (simp_all add: select_inv_def)
  have q: "cpu_queues ?s' = cpu_queues ?s"
    using pick_task_for_cpu_fields [of ?s "int k" "tl_planned lp" tk] by simp
  have fr: "selection_frame ?s ?s'" by (rule selection_frame_pick)
  show ?thesis
  proof (cases "fst ?r")
    case None
    have lp': "tl_sched ?lp' = ?s'" "tl_schedule ?lp' = tl_schedule lp @ [''idle'']"
      using schedule_cpu_None [OF None, of prev] by simp_all
    have m: "mset (runnable_heap ?s') = mset (runnable_heap ?s)"
      using None by (rule pick_task_for_cpu_none)
    have h: "set (runnable_heap ?s') = set (runnable_heap ?s)" "distinct (runnable_heap ?s')"
      using m dist mset_eq_setD [OF m] mset_eq_imp_distinct_iff [OF m] by simp_all
    have kn: "cpu_queues ?s ! k = None" using rest k by simp
    have ids: "slot_id ?s' c = slot_id ?s c" for c
      by (rule slot_id_cong) (use fr q in simp_all)
    have e: "slots_exclusive ?s' (Suc k)"
      unfolding slots_exclusive_def
    proof (intro allI impI)
      fix c1 c2 p
      assume c: "c1 < Suc k" "c2 < Suc k" "c1 \<noteq> c2" and p: "cpu_queues ?s' ! c1 = Some p"
      from p q kn have "c1 \<noteq> k" by auto
      with c have c1: "c1 < k" by simp
      show "cpu_queues ?s' ! c2 \<noteq> Some p"
      proof (cases "c2 = k")
        case True
        with q kn show ?thesis by simp
      next
        case False
        with c have "c2 < k" by simp
        with excl c1 c(3) p q show ?thesis
          unfolding slots_exclusive_def by simp
      qed
    qed
    have o: "\<forall>c < Suc k. \<forall>p. cpu_queues ?s' ! c = Some p \<longrightarrow>
        p \<notin> set (runnable_heap ?s') \<and> p \<in> A"
    proof (intro allI impI)
      fix c p assume c: "c < Suc k" and p: "cpu_queues ?s' ! c = Some p"
      from p q kn have "c \<noteq> k" by auto
      with c have "c < k" by simp
      from occ [OF this] p q h(1) show "p \<notin> set (runnable_heap ?s') \<and> p \<in> A" by simp
    qed
    have idk: "slot_id ?s' k = ''idle''"
      using kn q by (simp add: slot_id_def)
    have sc: "\<forall>c < Suc k. (tl_schedule lp @ [''idle'']) ! c = slot_id ?s' c"
    proof (intro allI impI)
      fix c assume "c < Suc k"
      then consider "c < k" | "c = k" by linarith
      then show "(tl_schedule lp @ [''idle'']) ! c = slot_id ?s' c"
      proof cases
        case 1
        then show ?thesis using sids slen ids by (simp add: nth_append)
      next
        case 2
        then show ?thesis using slen idk by (simp add: nth_append)
      qed
    qed
    have r: "\<forall>c. Suc k \<le> c \<and> c < n \<longrightarrow> cpu_queues ?s' ! c = None"
      using rest q by simp
    show ?thesis
      unfolding select_inv_def lp'
      using len k h sub q r e o sc slen by simp
  next
    case (Some best)
    note sc = schedule_cpu_Some [OF Some refl, of prev]
    have sel: "best \<in> set (runnable_heap ?s)" "best \<notin> set (runnable_heap ?s')"
      "distinct (runnable_heap ?s')" "set (runnable_heap ?s') \<subseteq> set (runnable_heap ?s)"
      using pick_task_for_cpu_selected [OF Some dist] by blast+
    let ?t = "tl_sched ?lp'"
    have qt: "cpu_queues ?t = (cpu_queues ?s)[k := Some best]"
      using sc(1) q by simp
    have ht: "runnable_heap ?t = runnable_heap ?s'" by (rule sc(2))
    have ft: "selection_frame ?s ?t"
      using fr sc(3) by (rule selection_frame_trans)
    have slot_old: "cpu_queues ?t ! c = cpu_queues ?s ! c" if "c \<noteq> k" for c
      using qt that by simp
    have slot_k: "cpu_queues ?t ! k = Some best"
      using qt k len by simp
    have o: "\<forall>c < Suc k. \<forall>p. cpu_queues ?t ! c = Some p \<longrightarrow>
        p \<notin> set (runnable_heap ?t) \<and> p \<in> A"
    proof (intro allI impI)
      fix c p assume c: "c < Suc k" and p: "cpu_queues ?t ! c = Some p"
      show "p \<notin> set (runnable_heap ?t) \<and> p \<in> A"
      proof (cases "c = k")
        case True
        with p slot_k have "p = best" by simp
        with sel sub ht show ?thesis by auto
      next
        case False
        with c p slot_old have "c < k" "cpu_queues ?s ! c = Some p" by simp_all
        from occ [OF this] sel(4) ht show ?thesis by auto
      qed
    qed
    have e: "slots_exclusive ?t (Suc k)"
      unfolding slots_exclusive_def
    proof (intro allI impI)
      fix c1 c2 p
      assume c: "c1 < Suc k" "c2 < Suc k" "c1 \<noteq> c2" and p: "cpu_queues ?t ! c1 = Some p"
      show "cpu_queues ?t ! c2 \<noteq> Some p"
      proof (cases "c1 = k")
        case True
        with p slot_k have pb: "p = best" by simp
        from True c have c2: "c2 < k" by simp
        then have "cpu_queues ?t ! c2 = cpu_queues ?s ! c2" using slot_old by simp
        with occ [OF c2] sel(1) pb show ?thesis by auto
      next
        case False
        with c p slot_old have c1: "c1 < k" "cpu_queues ?s ! c1 = Some p" by simp_all
        show ?thesis
        proof (cases "c2 = k")
          case True
          with slot_k occ [OF c1] sel(1) show ?thesis by auto
        next
          case False
          with c slot_old have "c2 < k" "cpu_queues ?t ! c2 = cpu_queues ?s ! c2" by simp_all
          with excl c1 c(3) show ?thesis
            unfolding slots_exclusive_def by metis
        qed
      qed
    qed
    have ids_old: "slot_id ?t c = slot_id ?s c" if "c \<noteq> k" for c
      by (rule slot_id_cong) (use ft slot_old [OF that] in simp_all)
    have id_k: "slot_id ?t k = task_id (mem ?s' best)"
      using slot_k ft fr by (simp add: slot_id_def selection_frame_def)
    have sch: "\<forall>c < Suc k. tl_schedule ?lp' ! c = slot_id ?t c"
    proof (intro allI impI)
      fix c assume "c < Suc k"
      then consider "c < k" | "c = k" by linarith
      then show "tl_schedule ?lp' ! c = slot_id ?t c"
      proof cases
        case 1
        then show ?thesis using sids slen ids_old sc(4) by (simp add: nth_append)
      next
        case 2
        then show ?thesis using slen id_k sc(4) by (simp add: nth_append)
      qed
    qed
    have r: "\<forall>c. Suc k \<le> c \<and> c < n \<longrightarrow> cpu_queues ?t ! c = None"
      using rest slot_old by simp
    have l: "length (cpu_queues ?t) = n" "length (tl_schedule ?lp') = Suc k"
      using len qt slen sc(4) by simp_all
    have hs: "distinct (runnable_heap ?t)" "set (runnable_heap ?t) \<subseteq> A"
      using ht sel(3,4) sub by auto
    show ?thesis
      unfolding select_inv_def
      using l k hs o r e sch by simp
  qed
qed


lemma select_inv_fold:
  "select_inv A n lp k \<Longrightarrow>
     select_inv A n (fold (\<lambda>cpu lp'. schedule_cpu prev tk lp' cpu) [k..<n] lp) n"
proof (induction "n - k" arbitrary: k lp)
  case 0
  then have "k = n" by (simp add: select_inv_def)
  with 0 show ?case by simp
next
  case (Suc d)
  then have k: "k < n" by simp
  have "select_inv A n (schedule_cpu prev tk lp k) (Suc k)"
    using Suc.prems k by (rule select_inv_step)
  moreover have "d = n - Suc k" using Suc.hyps(2) by simp
  ultimately have "select_inv A n
      (fold (\<lambda>cpu lp'. schedule_cpu prev tk lp' cpu) [Suc k..<n] (schedule_cpu prev tk lp k)) n"
    using Suc.hyps(1) by blast
  then show ?case
    using k by (simp add: upt_conv_Cons)
qed

lemma account_cpu_slots: "cpu_queues (account_cpu s i) = (cpu_queues s)[i := None]"
  by (simp add: account_cpu_def Let_def split: option.splits)

lemma fold_account_cpu_slots:
  "cpu_queues (fold (\<lambda>i s'. account_cpu s' i) is s) = fold (\<lambda>i q. q[i := None]) is (cpu_queues s)"
  by (induction "is" arbitrary: s) (simp_all add: account_cpu_slots)

lemma fold_clear_slots_None:
  "c < length q \<Longrightarrow> c \<in> set is \<or> q ! c = None \<Longrightarrow> fold (\<lambda>i q. q[i := None]) is q ! c = None"
proof (induction "is" arbitrary: q)
  case Nil
  then show ?case by simp
next
  case (Cons i "is")
  have "c < length (q[i := None])" using Cons.prems(1) by simp
  moreover have "c \<in> set is \<or> q[i := None] ! c = None"
    using Cons.prems by (cases "c = i") auto
  ultimately show ?case
    using Cons.IH [of "q[i := None]"] by simp
qed

lemma account_running_slots:
  "c < length (cpu_queues s) \<Longrightarrow> cpu_queues (account_running s) ! c = None"
  by (simp add: account_running_def fold_account_cpu_slots fold_clear_slots_None)

lemma select_inv_init:
  assumes "distinct (all_tasks s)"
    and "\<forall>c < length (cpu_queues s). cpu_queues s ! c = None"
  shows "select_inv (set (all_tasks s)) (length (cpu_queues s))
    \<lparr> tl_sched = rebuild_runnable_heap s, tl_planned = [],
      tl_assigned = replicate (length (all_tasks s)) False, tl_schedule = [] \<rparr> 0"
  using assms rebuild_heap_distinct [of s] rebuild_heap_subset [of s]
  by (simp add: select_inv_def slots_exclusive_def)

lemma select_all_inv:
  assumes "distinct (all_tasks s)"
    and "\<forall>c < length (cpu_queues s). cpu_queues s ! c = None"
  shows "select_inv (set (all_tasks s)) (length (cpu_queues s))
    (select_all prev tk (rebuild_runnable_heap s)) (length (cpu_queues s))"
  using select_inv_fold [OF select_inv_init [OF assms], of prev tk]
  by (simp add: select_all_def)


lemma clear_step_cpu_queues [simp]: "cpu_queues (clear_step a i s) = cpu_queues s"
  by (simp add: clear_step_def Let_def)

lemma fold_clear_cpu_queues [simp]: "cpu_queues (fold (clear_step a) is s) = cpu_queues s"
  by (induction "is" arbitrary: s) simp_all

lemma clear_unassigned_cpu_queues [simp]: "cpu_queues (clear_unassigned s a) = cpu_queues s"
  by (simp add: clear_unassigned_def)

lemma clear_unassigned_slot_id: "slot_id (clear_unassigned s a) c = slot_id s c"
  using same_ids_clear [of s a] by (simp add: slot_id_def same_ids_def split: option.splits)

lemma slots_exclusive_cong:
  "cpu_queues s' = cpu_queues s \<Longrightarrow> slots_exclusive s' k = slots_exclusive s k"
  by (simp add: slots_exclusive_def)

lemma tick_selection:
  assumes "distinct (all_tasks s)"
  shows "length (schedule (fst (scheduler_tick s vt))) = length (cpu_queues s) \<and>
    (\<forall>c < length (cpu_queues s).
       schedule (fst (scheduler_tick s vt)) ! c = slot_id (snd (scheduler_tick s vt)) c) \<and>
    slots_exclusive (snd (scheduler_tick s vt)) (length (cpu_queues s)) \<and>
    (\<forall>c < length (cpu_queues s). \<forall>p. cpu_queues (snd (scheduler_tick s vt)) ! c = Some p \<longrightarrow>
       p \<in> set (all_tasks s))"
proof -
  let ?n = "length (cpu_queues s)"
  let ?s0 = "s\<lparr>current_vtime := vt, preemptions := 0, migrations := 0\<rparr>"
  let ?s1 = "refresh_cgroup_periods ?s0 vt"
  let ?s2 = "account_running ?s1"
  let ?s3 = "rebuild_runnable_heap ?s2"
  let ?tk = "if (of_int (quanta ?s3) * 1000 :: rat) < 0 then 0 else of_int (quanta ?s3) * 1000"
  let ?lp = "select_all (cpu_queues ?s1) ?tk ?s3"
  let ?s4 = "clear_unassigned (tl_sched ?lp) (tl_assigned ?lp)"
  have t: "scheduler_tick s vt = (\<lparr>vtime = vt, schedule = tl_schedule ?lp, meta = fill_meta ?s4\<rparr>, ?s4)"
    by (simp add: scheduler_tick_def Let_def)
  have "same_ids s ?s0" by (simp add: same_ids_def)
  also have "same_ids ?s0 ?s1" by (rule same_ids_refresh)
  also have "same_ids ?s1 ?s2" by (rule same_ids_account_running)
  finally have i2: "same_ids s ?s2" .
  then have a2: "all_tasks ?s2 = all_tasks s" and n2: "length (cpu_queues ?s2) = ?n"
    by (simp_all add: same_ids_def)
  have n1: "length (cpu_queues ?s1) = ?n" by simp
  have none: "\<forall>c < length (cpu_queues ?s2). cpu_queues ?s2 ! c = None"
    using account_running_slots [of _ ?s1] n1 n2 by simp
  have d2: "distinct (all_tasks ?s2)" using assms a2 by simp
  have inv: "select_inv (set (all_tasks s)) ?n ?lp ?n"
    using select_all_inv [OF d2 none, of "cpu_queues ?s1" ?tk] a2 n2 by simp
  have q4: "cpu_queues ?s4 = cpu_queues (tl_sched ?lp)" by simp
  have id4: "slot_id ?s4 c = slot_id (tl_sched ?lp) c" for c
    by (rule clear_unassigned_slot_id)
  have "slots_exclusive (tl_sched ?lp) ?n"
    using inv by (simp add: select_inv_def)
  then have e4: "slots_exclusive ?s4 ?n"
    using slots_exclusive_cong [OF q4] by simp
  show ?thesis
    unfolding t fst_conv snd_conv
    using inv e4 id4 q4 by (simp add: select_inv_def)
qed

subsection \<open>The planned tally and the quota charge\<close>

lemma add_planned_from_None: "add_planned_from pl c d = None \<longleftrightarrow> c \<notin> set (map fst pl)"
proof (induction pl)
  case Nil
  show ?case by simp
next
  case (Cons a pl)
  obtain k r where a: "a = (k, r)" by (cases a)
  show ?case
    using Cons.IH a by (cases "k = c") simp_all
qed

lemma add_planned_from_Some:
  "add_planned_from pl c d = Some pl' \<Longrightarrow>
     map fst pl' = map fst pl \<and>
     get_planned_runtime_for_cgroup pl' c' =
       get_planned_runtime_for_cgroup pl c' + (if c' = c then d else 0)"
proof (induction pl arbitrary: pl')
  case Nil
  then show ?case by simp
next
  case (Cons a pl)
  obtain k r where a: "a = (k, r)" by (cases a)
  show ?case
  proof (cases "k = c")
    case True
    with Cons.prems a show ?thesis by auto
  next
    case False
    with Cons.prems a obtain ps where ps: "add_planned_from pl c d = Some ps" "pl' = (k, r) # ps"
      by auto
    from Cons.IH [OF ps(1)] ps(2) a False show ?thesis by auto
  qed
qed

lemma get_planned_append:
  "c \<notin> set (map fst pl) \<Longrightarrow>
     get_planned_runtime_for_cgroup (pl @ [(c, d)]) c' =
       get_planned_runtime_for_cgroup pl c' + (if c' = c then d else 0)"
  by (induction pl) auto

lemma add_planned_get:
  assumes "c \<in> set (map fst pl) \<or> length pl < MAX_CGROUPS"
  shows "get_planned_runtime_for_cgroup (add_planned_runtime_for_cgroup pl c d) c' =
      get_planned_runtime_for_cgroup pl c' + (if c' = c then d else 0)"
    and "set (map fst (add_planned_runtime_for_cgroup pl c d)) = insert c (set (map fst pl))"
    and "distinct (map fst pl) \<Longrightarrow> distinct (map fst (add_planned_runtime_for_cgroup pl c d))"
proof -
  show "get_planned_runtime_for_cgroup (add_planned_runtime_for_cgroup pl c d) c' =
      get_planned_runtime_for_cgroup pl c' + (if c' = c then d else 0)"
  proof (cases "add_planned_from pl c d")
    case None
    then have "c \<notin> set (map fst pl)" by (simp add: add_planned_from_None)
    with None assms show ?thesis
      by (simp add: add_planned_runtime_for_cgroup_def get_planned_append)
  next
    case (Some ps)
    from add_planned_from_Some [OF Some, of c'] Some show ?thesis
      by (simp add: add_planned_runtime_for_cgroup_def)
  qed
  show "set (map fst (add_planned_runtime_for_cgroup pl c d)) = insert c (set (map fst pl))"
  proof (cases "add_planned_from pl c d")
    case None
    then have "c \<notin> set (map fst pl)" by (simp add: add_planned_from_None)
    with None assms show ?thesis
      by (simp add: add_planned_runtime_for_cgroup_def)
  next
    case (Some ps)
    then have "c \<in> set (map fst pl)"
      using add_planned_from_None [of pl c d] by simp
    with add_planned_from_Some [OF Some, of c] Some show ?thesis
      by (auto simp: add_planned_runtime_for_cgroup_def)
  qed
  show "distinct (map fst (add_planned_runtime_for_cgroup pl c d))" if "distinct (map fst pl)"
  proof (cases "add_planned_from pl c d")
    case None
    then have "c \<notin> set (map fst pl)" by (simp add: add_planned_from_None)
    with None assms that show ?thesis
      by (simp add: add_planned_runtime_for_cgroup_def)
  next
    case (Some ps)
    with add_planned_from_Some [OF Some, of c] that show ?thesis
      by (simp add: add_planned_runtime_for_cgroup_def)
  qed
qed

text \<open>A tally with pairwise different keys below \<open>n\<close> has room for a key that it lacks.\<close>

lemma tally_room:
  assumes "distinct ks" and "\<forall>k \<in> set ks. k < n" and "c < n" and "c \<notin> set ks"
  shows "length ks < n"
proof -
  have "set ks \<subseteq> {..<n} - {c}" using assms by auto
  then have "card (set ks) \<le> card ({..<n} - {c})"
    by (intro card_mono) simp_all
  also have "\<dots> < n" using assms(3) by simp
  finally show ?thesis using distinct_card [OF assms(1)] by simp
qed

lemma running_in_Suc:
  "running_in s (Suc k) c = running_in s k c + (if slot_cgroup s k = Some c then 1 else 0)"
  by (simp add: running_in_def)

lemma running_in_cong:
  "(\<And>i. i < k \<Longrightarrow> slot_cgroup s' i = slot_cgroup s i) \<Longrightarrow> running_in s' k c = running_in s k c"
  unfolding running_in_def by (rule arg_cong [where f = length], rule filter_cong) simp_all

lemma slot_cgroup_cong:
  "cpu_queues s' ! i = cpu_queues s ! i \<Longrightarrow> selection_frame s s' \<Longrightarrow>
     slot_cgroup s' i = slot_cgroup s i"
  by (simp add: slot_cgroup_def selection_frame_def scheduler_find_cgroup_def split: option.splits)

text \<open>The candidate that the loop selects has passed both tests.\<close>

lemma pick_loop_admitted:
  "fst (pick_loop s cpu pl tk d) = Some p \<longrightarrow>
     can_task_run_on_cpu s (mem s p) cpu \<and> \<not> quota_defers s pl tk (mem s p)"
proof (induction rule: pick_loop_rule
    [where P = "\<lambda>s d r. fst r = Some p \<longrightarrow>
       can_task_run_on_cpu s (mem s p) cpu \<and> \<not> quota_defers s pl tk (mem s p)"])
  case (empty s d)
  then show ?case by simp
next
  case (deferred s d c s1)
  have st: "same_task (mem s1 p) (mem s p)"
    using heap_frame_extract_min [of "mem s" "hs_of s"] deferred(3)
    by (simp add: heap_frame_def same_task_sym)
  have cg: "cgroups s = cgroups s1" using deferred(3) by simp
  from deferred(5) show ?case
    using same_task_can_run [OF st cg] same_task_quota_defers [OF st cg] by simp
next
  case (select s d c s1)
  have st: "same_task (mem s1 p) (mem s p)"
    using heap_frame_extract_min [of "mem s" "hs_of s"] select(3)
    by (simp add: heap_frame_def same_task_sym)
  have cg: "cgroups s = cgroups s1" using select(3) by simp
  show ?case
  proof
    assume "fst (Some c, s1, d) = Some p"
    then have "c = p" by simp
    with select(4,5) show "can_task_run_on_cpu s (mem s p) cpu \<and> \<not> quota_defers s pl tk (mem s p)"
      using same_task_can_run [OF st cg] same_task_quota_defers [OF st cg] by simp
  qed
qed

lemma pick_task_for_cpu_admitted:
  "fst (pick_task_for_cpu s cpu pl tk) = Some p \<Longrightarrow>
     can_task_run_on_cpu s (mem s p) cpu \<and> \<not> quota_defers s pl tk (mem s p)"
  using pick_loop_admitted [of s cpu pl tk "[]" p]
  by (simp add: pick_task_for_cpu_def Let_def)

lemma pick_task_for_cpu_planned:
  "snd (snd (pick_task_for_cpu s cpu pl tk)) =
    (case fst (pick_task_for_cpu s cpu pl tk) of
       None \<Rightarrow> pl
     | Some p \<Rightarrow>
         (if task_cgroup_id (mem s p) \<noteq> [] then
            (case scheduler_find_cgroup s (task_cgroup_id (mem s p)) of
               Some c \<Rightarrow>
                 (if cpu_quota_us (cgroups s ! c) \<ge> 0
                  then add_planned_runtime_for_cgroup pl c tk else pl)
             | None \<Rightarrow> pl)
          else pl))"
proof -
  let ?s2 = "fst (snd (pick_task_for_cpu s cpu pl tk))"
  have f: "cgroups ?s2 = cgroups s" "heap_frame (mem s) (mem ?s2)"
    using pick_task_for_cpu_fields [of s cpu pl tk] by simp_all
  have t: "task_cgroup_id (mem ?s2 p) = task_cgroup_id (mem s p)" for p
    using heap_frame_fields(6) [OF f(2)] .
  have l: "scheduler_find_cgroup ?s2 cid = scheduler_find_cgroup s cid" for cid
    using f(1) by (simp add: scheduler_find_cgroup_def)
  have "snd (snd (pick_task_for_cpu s cpu pl tk)) =
    (case fst (pick_task_for_cpu s cpu pl tk) of
       None \<Rightarrow> pl
     | Some p \<Rightarrow>
         (if task_cgroup_id (mem ?s2 p) \<noteq> [] then
            (case scheduler_find_cgroup ?s2 (task_cgroup_id (mem ?s2 p)) of
               Some c \<Rightarrow>
                 (if cpu_quota_us (cgroups ?s2 ! c) \<ge> 0
                  then add_planned_runtime_for_cgroup pl c tk else pl)
             | None \<Rightarrow> pl)
          else pl))"
    unfolding pick_task_for_cpu_def Let_def fst_conv snd_conv by (rule refl)
  then show ?thesis
    unfolding t l f(1) .
qed

lemma admitted_within_quota:
  assumes "\<not> quota_defers s pl tk t" and "task_cgroup_id t \<noteq> []"
    and "scheduler_find_cgroup s (task_cgroup_id t) = Some c"
    and "cpu_quota_us (cgroups s ! c) \<ge> 0"
  shows "quota_used (cgroups s ! c) + get_planned_runtime_for_cgroup pl c + tk
    \<le> of_int (cpu_quota_us (cgroups s ! c))"
  using assms by (simp add: quota_defers_def Let_def split: if_splits)

lemma schedule_cpu_planned:
  "tl_planned (schedule_cpu prev tk lp k) =
     snd (snd (pick_task_for_cpu (tl_sched lp) (int k) (tl_planned lp) tk))"
  by (simp add: schedule_cpu_def Let_def split: option.splits)

lemma schedule_cpu_frame:
  "selection_frame (tl_sched lp) (tl_sched (schedule_cpu prev tk lp k))"
proof (cases "fst (pick_task_for_cpu (tl_sched lp) (int k) (tl_planned lp) tk)")
  case None
  show ?thesis
    using schedule_cpu_None [OF None, of prev] selection_frame_pick [of "tl_sched lp"] by simp
next
  case (Some best)
  show ?thesis
    using selection_frame_pick schedule_cpu_Some(3) [OF Some refl]
    by (rule selection_frame_trans)
qed

lemma schedule_cpu_slots:
  "cpu_queues (tl_sched (schedule_cpu prev tk lp k)) =
    (case fst (pick_task_for_cpu (tl_sched lp) (int k) (tl_planned lp) tk) of
       None \<Rightarrow> cpu_queues (tl_sched lp)
     | Some best \<Rightarrow> (cpu_queues (tl_sched lp))[k := Some best])"
proof (cases "fst (pick_task_for_cpu (tl_sched lp) (int k) (tl_planned lp) tk)")
  case None
  show ?thesis
    using schedule_cpu_None [OF None, of prev]
      pick_task_for_cpu_fields [of "tl_sched lp" "int k" "tl_planned lp" tk] None
    by simp
next
  case (Some best)
  show ?thesis
    using schedule_cpu_Some(1) [OF Some refl, of prev]
      pick_task_for_cpu_fields [of "tl_sched lp" "int k" "tl_planned lp" tk] Some
    by simp
qed

lemma tally_inv_step:
  assumes inv: "tally_inv cs lp k tk" and sel: "select_inv A n lp k" and k: "k < n"
    and room: "length cs \<le> MAX_CGROUPS"
  shows "tally_inv cs (schedule_cpu prev tk lp k) (Suc k) tk"
proof -
  let ?s = "tl_sched lp"
  let ?pl = "tl_planned lp"
  let ?r = "pick_task_for_cpu ?s (int k) ?pl tk"
  let ?lp' = "schedule_cpu prev tk lp k"
  let ?t = "tl_sched ?lp'"
  have cs: "cgroups ?s = cs" and dist: "distinct (map fst ?pl)"
    and keys: "\<And>c. c \<in> set (map fst ?pl) \<Longrightarrow> c < length cs"
    and tally: "\<And>c. c < length cs \<Longrightarrow> cpu_quota_us (cs ! c) \<ge> 0 \<Longrightarrow>
        get_planned_runtime_for_cgroup ?pl c = of_nat (running_in ?s k c) * tk"
    and bound: "\<And>c. c < length cs \<Longrightarrow> cpu_quota_us (cs ! c) \<ge> 0 \<Longrightarrow> running_in ?s k c > 0 \<Longrightarrow>
        quota_used (cs ! c) + get_planned_runtime_for_cgroup ?pl c \<le> of_int (cpu_quota_us (cs ! c))"
    using inv unfolding tally_inv_def by blast+
  have kn: "cpu_queues ?s ! k = None" and len: "length (cpu_queues ?s) = n"
    using sel k by (simp_all add: select_inv_def)
  have ft: "selection_frame ?s ?t" by (rule schedule_cpu_frame)
  then have ct: "cgroups ?t = cs" using cs by (simp add: selection_frame_def)
  have slots: "cpu_queues ?t =
    (case fst ?r of None \<Rightarrow> cpu_queues ?s | Some best \<Rightarrow> (cpu_queues ?s)[k := Some best])"
    by (rule schedule_cpu_slots)
  have old: "slot_cgroup ?t i = slot_cgroup ?s i" if "i < k" for i
  proof (rule slot_cgroup_cong [OF _ ft])
    show "cpu_queues ?t ! i = cpu_queues ?s ! i"
      using slots that by (simp split: option.splits)
  qed
  have run_old: "running_in ?t k c = running_in ?s k c" for c
    by (rule running_in_cong) (rule old)
  have pl': "tl_planned ?lp' =
    (case fst ?r of
       None \<Rightarrow> ?pl
     | Some p \<Rightarrow>
         (if task_cgroup_id (mem ?s p) \<noteq> [] then
            (case scheduler_find_cgroup ?s (task_cgroup_id (mem ?s p)) of
               Some c \<Rightarrow>
                 (if cpu_quota_us (cgroups ?s ! c) \<ge> 0
                  then add_planned_runtime_for_cgroup ?pl c tk else ?pl)
             | None \<Rightarrow> ?pl)
          else ?pl))"
    unfolding schedule_cpu_planned by (rule pick_task_for_cpu_planned)
  have slot_k: "slot_cgroup ?t k =
    (case fst ?r of
       None \<Rightarrow> None
     | Some p \<Rightarrow>
         (if task_cgroup_id (mem ?s p) \<noteq> []
          then scheduler_find_cgroup ?s (task_cgroup_id (mem ?s p)) else None))"
  proof (cases "fst ?r")
    case None
    then show ?thesis using slots kn by (simp add: slot_cgroup_def)
  next
    case (Some best)
    then have "cpu_queues ?t ! k = Some best" using slots k len by simp
    moreover have "task_cgroup_id (mem ?t best) = task_cgroup_id (mem ?s best)"
      using ft by (simp add: selection_frame_def)
    moreover have "scheduler_find_cgroup ?t cid = scheduler_find_cgroup ?s cid" for cid
      using ct cs by (simp add: scheduler_find_cgroup_def)
    ultimately show ?thesis using Some by (simp add: slot_cgroup_def)
  qed
  show ?thesis
  proof (cases "\<exists>c. slot_cgroup ?t k = Some c \<and> cpu_quota_us (cs ! c) \<ge> 0")
    case True
    then obtain c where c: "slot_cgroup ?t k = Some c" "cpu_quota_us (cs ! c) \<ge> 0"
      by blast
    from c(1) slot_k obtain best where best: "fst ?r = Some best"
      "task_cgroup_id (mem ?s best) \<noteq> []"
      "scheduler_find_cgroup ?s (task_cgroup_id (mem ?s best)) = Some c"
      by (auto split: option.splits if_splits)
    have clt: "c < length cs"
      using scheduler_find_cgroup_Some [OF best(3)] cs by simp
    have planned: "tl_planned ?lp' = add_planned_runtime_for_cgroup ?pl c tk"
      using pl' best c(2) cs by simp
    have rm: "c \<in> set (map fst ?pl) \<or> length ?pl < MAX_CGROUPS"
    proof (cases "c \<in> set (map fst ?pl)")
      case True
      then show ?thesis by simp
    next
      case False
      have "length (map fst ?pl) < length cs"
        using dist _ clt False by (rule tally_room) (use keys in blast)
      then show ?thesis using room by simp
    qed
    note add = add_planned_get [OF rm, of tk]
    have adm: "\<not> quota_defers ?s ?pl tk (mem ?s best)"
      using pick_task_for_cpu_admitted [OF best(1)] by simp
    have within: "quota_used (cs ! c) + get_planned_runtime_for_cgroup ?pl c + tk
        \<le> of_int (cpu_quota_us (cs ! c))"
      using admitted_within_quota [OF adm best(2,3)] c(2) cs by simp
    have run: "running_in ?t (Suc k) c' = running_in ?s k c' + (if c' = c then 1 else 0)" for c'
      using running_in_Suc [of ?t k c'] run_old [of c'] c(1) by auto
    have g: "get_planned_runtime_for_cgroup (tl_planned ?lp') c' =
        get_planned_runtime_for_cgroup ?pl c' + (if c' = c then tk else 0)" for c'
      using add(1) [of c'] planned by simp
    have d': "distinct (map fst (tl_planned ?lp'))"
      using add(3) [OF dist] planned by simp
    have k': "\<forall>c' \<in> set (map fst (tl_planned ?lp')). c' < length cs"
      using add(2) planned keys clt by auto
    have main: "get_planned_runtime_for_cgroup (tl_planned ?lp') c' =
          of_nat (running_in ?t (Suc k) c') * tk \<and>
        (running_in ?t (Suc k) c' > 0 \<longrightarrow>
           quota_used (cs ! c') + get_planned_runtime_for_cgroup (tl_planned ?lp') c'
             \<le> of_int (cpu_quota_us (cs ! c')))"
      if c': "c' < length cs" "cpu_quota_us (cs ! c') \<ge> 0" for c'
    proof (cases "c' = c")
      case True
      have "get_planned_runtime_for_cgroup (tl_planned ?lp') c =
          of_nat (running_in ?t (Suc k) c) * tk"
        using g [of c] run [of c] tally [OF clt c(2)] by (simp add: algebra_simps)
      moreover have "quota_used (cs ! c) + get_planned_runtime_for_cgroup (tl_planned ?lp') c
             \<le> of_int (cpu_quota_us (cs ! c))"
        using g [of c] within by simp
      ultimately show ?thesis using True by simp
    next
      case False
      then show ?thesis
        using g [of c'] run [of c'] tally [OF c'] bound [OF c'] by simp
    qed
    show ?thesis
      unfolding tally_inv_def using ct d' k' main by blast
  next
    case False
    have planned: "tl_planned ?lp' = ?pl"
    proof (cases "fst ?r")
      case None
      then show ?thesis using pl' by simp
    next
      case (Some best)
      show ?thesis
      proof (cases "slot_cgroup ?t k")
        case None
        then show ?thesis using pl' slot_k Some cs by (simp split: if_splits)
      next
        case c: (Some c)
        then have n: "\<not> cpu_quota_us (cs ! c) \<ge> 0" using False by simp
        from c slot_k Some have f: "task_cgroup_id (mem ?s best) \<noteq> []"
          "scheduler_find_cgroup ?s (task_cgroup_id (mem ?s best)) = Some c"
          by (auto split: if_splits)
        show ?thesis using pl' Some f n cs by simp
      qed
    qed
    have run: "running_in ?t (Suc k) c' = running_in ?s k c'"
      if "cpu_quota_us (cs ! c') \<ge> 0" for c'
      using running_in_Suc [of ?t k c'] run_old [of c'] False that by auto
    show ?thesis
      unfolding tally_inv_def planned
      using ct dist keys tally bound run by simp
  qed
qed

lemma tally_inv_fold:
  "select_inv A n lp k \<Longrightarrow> tally_inv cs lp k tk \<Longrightarrow> length cs \<le> MAX_CGROUPS \<Longrightarrow>
     tally_inv cs (fold (\<lambda>cpu lp'. schedule_cpu prev tk lp' cpu) [k..<n] lp) n tk"
proof (induction "n - k" arbitrary: k lp)
  case 0
  then have "k = n" by (simp add: select_inv_def)
  with 0 show ?case by simp
next
  case (Suc d)
  then have k: "k < n" by simp
  have "select_inv A n (schedule_cpu prev tk lp k) (Suc k)"
    using Suc.prems(1) k by (rule select_inv_step)
  moreover have "tally_inv cs (schedule_cpu prev tk lp k) (Suc k) tk"
    using Suc.prems(2,1) k Suc.prems(3) by (rule tally_inv_step)
  moreover have "d = n - Suc k" using Suc.hyps(2) by simp
  ultimately have "tally_inv cs
      (fold (\<lambda>cpu lp'. schedule_cpu prev tk lp' cpu) [Suc k..<n] (schedule_cpu prev tk lp k)) n tk"
    using Suc.hyps(1) Suc.prems(3) by blast
  then show ?case
    using k by (simp add: upt_conv_Cons)
qed

lemma select_all_tally:
  assumes "distinct (all_tasks s)"
    and "\<forall>c < length (cpu_queues s). cpu_queues s ! c = None"
    and "length (cgroups s) \<le> MAX_CGROUPS"
  shows "tally_inv (cgroups s) (select_all prev tk (rebuild_runnable_heap s))
    (length (cpu_queues s)) tk"
proof -
  let ?lp = "\<lparr> tl_sched = rebuild_runnable_heap s, tl_planned = [],
      tl_assigned = replicate (length (all_tasks s)) False, tl_schedule = [] \<rparr>"
  have "tally_inv (cgroups s) ?lp 0 tk"
    by (simp add: tally_inv_def running_in_def)
  with select_inv_init [OF assms(1,2)]
  have "tally_inv (cgroups s)
      (fold (\<lambda>cpu lp'. schedule_cpu prev tk lp' cpu) [0..<length (cpu_queues s)] ?lp)
      (length (cpu_queues s)) tk"
    using assms(3) by (rule tally_inv_fold)
  then show ?thesis
    by (simp add: select_all_def)
qed

lemma selection_frame_clear_step: "selection_frame s (clear_step a i s)"
  by (simp add: selection_frame_def clear_step_def Let_def)

lemma selection_frame_fold_clear: "selection_frame s (fold (clear_step a) is s)"
proof (induction "is" arbitrary: s)
  case Nil
  show ?case by simp
next
  case (Cons i "is")
  have "selection_frame s (clear_step a i s)" by (rule selection_frame_clear_step)
  also have "selection_frame (clear_step a i s) (fold (clear_step a) is (clear_step a i s))"
    by (rule Cons)
  finally show ?case by simp
qed

lemma selection_frame_clear: "selection_frame s (clear_unassigned s a)"
  by (simp add: clear_unassigned_def selection_frame_fold_clear)

lemma tick_commit:
  assumes "distinct (all_tasks s)" and "length (cgroups s) \<le> MAX_CGROUPS"
    and "c < length (cgroups s)"
    and "cpu_quota_us (cgroups (snd (scheduler_tick s vt)) ! c) \<ge> 0"
    and "running_in (snd (scheduler_tick s vt)) (length (cpu_queues s)) c > 0"
  shows "quota_used (cgroups (snd (scheduler_tick s vt)) ! c) +
      of_nat (running_in (snd (scheduler_tick s vt)) (length (cpu_queues s)) c) * tick_runtime s
    \<le> of_int (cpu_quota_us (cgroups (snd (scheduler_tick s vt)) ! c))"
proof -
  let ?n = "length (cpu_queues s)"
  let ?s0 = "s\<lparr>current_vtime := vt, preemptions := 0, migrations := 0\<rparr>"
  let ?s1 = "refresh_cgroup_periods ?s0 vt"
  let ?s2 = "account_running ?s1"
  let ?s3 = "rebuild_runnable_heap ?s2"
  let ?tk = "if (of_int (quanta ?s3) * 1000 :: rat) < 0 then 0 else of_int (quanta ?s3) * 1000"
  let ?lp = "select_all (cpu_queues ?s1) ?tk ?s3"
  let ?s4 = "clear_unassigned (tl_sched ?lp) (tl_assigned ?lp)"
  have t: "snd (scheduler_tick s vt) = ?s4"
    by (simp add: scheduler_tick_def Let_def)
  have "same_ids s ?s0" by (simp add: same_ids_def)
  also have "same_ids ?s0 ?s1" by (rule same_ids_refresh)
  also have "same_ids ?s1 ?s2" by (rule same_ids_account_running)
  finally have i2: "same_ids s ?s2" .
  then have a2: "all_tasks ?s2 = all_tasks s" and n2: "length (cpu_queues ?s2) = ?n"
    and q2: "quanta ?s2 = quanta s"
    and g2: "map cgroup_id (cgroups ?s2) = map cgroup_id (cgroups s)"
    by (simp_all add: same_ids_def)
  have l2: "length (cgroups ?s2) = length (cgroups s)"
    using g2 by (rule map_eq_imp_length_eq)
  have tk: "?tk = tick_runtime s" using q2 by (simp add: tick_runtime_def)
  have n1: "length (cpu_queues ?s1) = ?n" by simp
  have none: "\<forall>c < length (cpu_queues ?s2). cpu_queues ?s2 ! c = None"
    using account_running_slots [of _ ?s1] n1 n2 by simp
  have d2: "distinct (all_tasks ?s2)" using assms(1) a2 by simp
  have b2: "length (cgroups ?s2) \<le> MAX_CGROUPS" using assms(2) l2 by simp
  have inv: "tally_inv (cgroups ?s2) ?lp ?n (tick_runtime s)"
    using select_all_tally [OF d2 none b2, of "cpu_queues ?s1" ?tk] n2 tk by simp
  have fr: "selection_frame (tl_sched ?lp) ?s4" by (rule selection_frame_clear)
  have c4: "cgroups ?s4 = cgroups ?s2"
    using fr inv by (simp add: selection_frame_def tally_inv_def)
  have r4: "running_in ?s4 ?n c = running_in (tl_sched ?lp) ?n c"
    by (rule running_in_cong, rule slot_cgroup_cong [OF _ fr]) simp
  have c: "c < length (cgroups ?s2)" using assms(3) l2 by simp
  have "0 \<le> cpu_quota_us (cgroups ?s2 ! c)" using assms(4) t c4 by simp
  moreover have "0 < running_in (tl_sched ?lp) ?n c" using assms(5) t r4 by simp
  ultimately have "quota_used (cgroups ?s2 ! c) +
      of_nat (running_in (tl_sched ?lp) ?n c) * tick_runtime s
      \<le> of_int (cpu_quota_us (cgroups ?s2 ! c))"
    using inv c unfolding tally_inv_def by fastforce
  then show ?thesis
    unfolding t c4 r4 .
qed

lemma quota_frame_refl [simp]: "quota_frame s s"
  by (simp add: quota_frame_def)

lemma quota_frame_trans [trans]:
  "quota_frame s s' \<Longrightarrow> quota_frame s' s'' \<Longrightarrow> quota_frame s s''"
  by (simp add: quota_frame_def)

lemma quota_frame_nth:
  assumes "quota_frame s s'"
  shows "length (cgroups s') = length (cgroups s)"
    and "c < length (cgroups s) \<Longrightarrow> cpu_quota_us (cgroups s' ! c) = cpu_quota_us (cgroups s ! c)"
proof -
  have m: "map cpu_quota_us (cgroups s') = map cpu_quota_us (cgroups s)"
    using assms by (simp add: quota_frame_def)
  show l: "length (cgroups s') = length (cgroups s)"
    using m by (rule map_eq_imp_length_eq)
  show "cpu_quota_us (cgroups s' ! c) = cpu_quota_us (cgroups s ! c)" if "c < length (cgroups s)"
    using nth_map [of c "cgroups s'" cpu_quota_us] nth_map [of c "cgroups s" cpu_quota_us]
      m l that by simp
qed

lemma find_cgroup_from_ids:
  "map cgroup_id cs' = map cgroup_id cs \<Longrightarrow> find_cgroup_from i cs' cid = find_cgroup_from i cs cid"
proof (induction cs arbitrary: cs' i)
  case Nil
  then show ?case by simp
next
  case (Cons c cs)
  then obtain c' cs'' where c': "cs' = c' # cs''" by (cases cs') auto
  with Cons.prems have "cgroup_id c' = cgroup_id c" "map cgroup_id cs'' = map cgroup_id cs"
    by simp_all
  with Cons.IH [of cs'' "Suc i"] c' show ?case by simp
qed

lemma slot_cgroup_frame:
  "cpu_queues s' ! i = cpu_queues s ! i \<Longrightarrow> quota_frame s s' \<Longrightarrow>
     slot_cgroup s' i = slot_cgroup s i"
  using find_cgroup_from_ids [of "cgroups s'" "cgroups s" 0]
  by (simp add: slot_cgroup_def quota_frame_def scheduler_find_cgroup_def split: option.splits)

lemma tick_runtime_nonneg: "0 \<le> tick_runtime s"
  by (simp add: tick_runtime_def)

lemma map_update_same:
  assumes "f v = f (xs ! c)"
  shows "map f (xs[c := v]) = map f xs"
proof (rule nth_equalityI)
  show "length (map f (xs[c := v])) = length (map f xs)" by simp
next
  fix i assume "i < length (map f (xs[c := v]))"
  then show "map f (xs[c := v]) ! i = map f xs ! i"
    using assms by (cases "i = c") simp_all
qed

lemma quota_frame_charge_quota: "quota_frame s (charge_quota s p)"
  by (simp add: quota_frame_def charge_quota_def Let_def map_update_same
      cgroup_account_runtime_def split: option.splits)

lemma task_cgroup_id_charge_vruntime:
  "task_cgroup_id (mem (charge_vruntime s p) q) = task_cgroup_id (mem s q)"
  by (simp add: charge_vruntime_def Let_def)

lemma task_cgroup_id_burst_countdown:
  "task_cgroup_id (mem (burst_countdown s p) q) = task_cgroup_id (mem s q)"
  by (simp add: burst_countdown_def Let_def)

lemma quota_frame_account_cpu: "quota_frame s (account_cpu s i)"
proof (cases "cpu_queues s ! i")
  case None
  then show ?thesis by (simp add: account_cpu_def quota_frame_def)
next
  case (Some p)
  show ?thesis
  proof (cases "state (mem s p) = TASK_STATE_RUNNING")
    case True
    have c: "cgroups (account_cpu s i) = cgroups (charge_quota s p)"
      using Some True by (rule account_cpu_cgroups)
    have m: "task_cgroup_id (mem (account_cpu s i) q) = task_cgroup_id (mem s q)" for q
      using Some True
      by (simp add: account_cpu_def Let_def task_cgroup_id_charge_vruntime
          task_cgroup_id_burst_countdown)
    have q: "quanta (account_cpu s i) = quanta s"
      using Some True by (simp add: account_cpu_def Let_def)
    show ?thesis
      using quota_frame_charge_quota [of s p] c m q by (simp add: quota_frame_def)
  next
    case False
    with Some show ?thesis by (simp add: account_cpu_def quota_frame_def)
  qed
qed

lemma quota_frame_fold_account_cpu: "quota_frame s (fold (\<lambda>i s'. account_cpu s' i) is s)"
proof (induction "is" arbitrary: s)
  case Nil
  show ?case by simp
next
  case (Cons i "is")
  have "quota_frame s (account_cpu s i)" by (rule quota_frame_account_cpu)
  also have "quota_frame (account_cpu s i) (fold (\<lambda>i s'. account_cpu s' i) is (account_cpu s i))"
    by (rule Cons)
  finally show ?case by simp
qed

lemma quota_frame_account_running: "quota_frame s (account_running s)"
  by (simp add: account_running_def quota_frame_fold_account_cpu)

text \<open>
  The first loop of a tick charges a cgroup at most one tick's runtime for the CPU it treats,
  and only when the task in the CPU's slot belongs to the cgroup.
\<close>

lemma account_cpu_charge:
  assumes "c < length (cgroups s)"
  shows "quota_used (cgroups s ! c) \<le> quota_used (cgroups (account_cpu s i) ! c) \<and>
    quota_used (cgroups (account_cpu s i) ! c) \<le>
      quota_used (cgroups s ! c) + (if slot_cgroup s i = Some c then tick_runtime s else 0)"
proof (cases "cpu_queues s ! i")
  case None
  then show ?thesis by (simp add: account_cpu_def slot_cgroup_def)
next
  case (Some p)
  show ?thesis
  proof (cases "state (mem s p) = TASK_STATE_RUNNING")
    case False
    with Some show ?thesis by (simp add: account_cpu_def tick_runtime_nonneg)
  next
    case True
    have cg: "cgroups (account_cpu s i) = cgroups (charge_quota s p)"
      using Some True by (rule account_cpu_cgroups)
    show ?thesis
    proof (cases "slot_cgroup s i = Some c")
      case sc: True
      then have f: "task_cgroup_id (mem s p) \<noteq> []"
        "scheduler_find_cgroup s (task_cgroup_id (mem s p)) = Some c"
        using Some by (auto simp: slot_cgroup_def split: if_splits)
      have "quota_used (cgroups (charge_quota s p) ! c) =
          (if cpu_quota_us (cgroups s ! c) > 0 \<and> quanta s > 0
           then quota_used (cgroups s ! c) + of_int (quanta s) * 1000
           else quota_used (cgroups s ! c))"
        using f by (rule charge_quota_used)
      then show ?thesis
        using cg sc by (simp add: tick_runtime_def)
    next
      case nc: False
      have "cgroups (charge_quota s p) ! c = cgroups s ! c"
      proof (cases "task_cgroup_id (mem s p) \<noteq> []")
        case False
        then show ?thesis by (simp add: charge_quota_def)
      next
        case ne: True
        show ?thesis
        proof (cases "scheduler_find_cgroup s (task_cgroup_id (mem s p))")
          case None
          then show ?thesis by (simp add: charge_quota_def)
        next
          case (Some c0)
          then have "c0 \<noteq> c" using nc ne \<open>cpu_queues s ! i = Some p\<close>
            by (auto simp: slot_cgroup_def)
          then show ?thesis using Some ne by (simp add: charge_quota_def Let_def)
        qed
      qed
      then show ?thesis using cg nc by simp
    qed
  qed
qed

lemma fold_account_cpu_charge:
  assumes "distinct is" and "c < length (cgroups s)"
  shows "quota_frame s (fold (\<lambda>i s'. account_cpu s' i) is s) \<and>
    quota_used (cgroups s ! c) \<le> quota_used (cgroups (fold (\<lambda>i s'. account_cpu s' i) is s) ! c) \<and>
    quota_used (cgroups (fold (\<lambda>i s'. account_cpu s' i) is s) ! c) \<le>
      quota_used (cgroups s ! c) +
        of_nat (length (filter (\<lambda>i. slot_cgroup s i = Some c) is)) * tick_runtime s"
  using assms
proof (induction "is" arbitrary: s)
  case Nil
  then show ?case by simp
next
  case (Cons i "is")
  let ?s' = "account_cpu s i"
  let ?f = "fold (\<lambda>i s'. account_cpu s' i) is ?s'"
  have fr: "quota_frame s ?s'" by (rule quota_frame_account_cpu)
  have c': "c < length (cgroups ?s')" using quota_frame_nth(1) [OF fr] Cons.prems(2) by simp
  have d: "distinct is" and ni: "i \<notin> set is" using Cons.prems(1) by simp_all
  note ih = Cons.IH [OF d c']
  have slots: "slot_cgroup ?s' j = slot_cgroup s j" if "j \<in> set is" for j
  proof (rule slot_cgroup_frame [OF _ fr])
    from that ni have "j \<noteq> i" by auto
    then show "cpu_queues ?s' ! j = cpu_queues s ! j"
      by (simp add: account_cpu_slots)
  qed
  have cnt: "filter (\<lambda>j. slot_cgroup ?s' j = Some c) is = filter (\<lambda>j. slot_cgroup s j = Some c) is"
    by (rule filter_cong) (simp_all add: slots)
  have tk: "tick_runtime ?s' = tick_runtime s"
    using fr by (simp add: tick_runtime_def quota_frame_def)
  note st = account_cpu_charge [OF Cons.prems(2), of i]
  have 1: "quota_frame s ?f"
    using fr ih by (blast intro: quota_frame_trans)
  have 2: "quota_used (cgroups s ! c) \<le> quota_used (cgroups ?f ! c)"
    using st ih by linarith
  have "quota_used (cgroups ?f ! c) \<le> quota_used (cgroups ?s' ! c) +
      of_nat (length (filter (\<lambda>j. slot_cgroup s j = Some c) is)) * tick_runtime s"
    using ih cnt tk by simp
  then have 3: "quota_used (cgroups ?f ! c) \<le> quota_used (cgroups s ! c) +
      of_nat (length (filter (\<lambda>j. slot_cgroup s j = Some c) (i # is))) * tick_runtime s"
    using st by (cases "slot_cgroup s i = Some c") (simp_all add: algebra_simps)
  show ?case
    using 1 2 3 by simp
qed

lemma account_running_charge:
  assumes "c < length (cgroups s)"
  shows "quota_frame s (account_running s) \<and>
    quota_used (cgroups s ! c) \<le> quota_used (cgroups (account_running s) ! c) \<and>
    quota_used (cgroups (account_running s) ! c) \<le>
      quota_used (cgroups s ! c) + of_nat (running_in s (length (cpu_queues s)) c) * tick_runtime s"
  using fold_account_cpu_charge [of "[0..<length (cpu_queues s)]" c s] assms
  by (simp add: account_running_def running_in_def)

lemma refresh_cgroup_used:
  "cpu_quota_us (refresh_cgroup tu vt cg) = cpu_quota_us cg \<and>
   cgroup_id (refresh_cgroup tu vt cg) = cgroup_id cg \<and>
   (quota_used (refresh_cgroup tu vt cg) = quota_used cg \<or>
    quota_used (refresh_cgroup tu vt cg) = 0)"
  by (simp add: refresh_cgroup_def cgroup_reset_period_def Let_def)

lemma refresh_quota_frame: "quota_frame s (refresh_cgroup_periods s vt)"
  by (simp add: quota_frame_def refresh_cgroup_periods_def Let_def refresh_cgroup_used comp_def)

lemma refresh_used:
  "c < length (cgroups s) \<Longrightarrow>
     quota_used (cgroups (refresh_cgroup_periods s vt) ! c) = quota_used (cgroups s ! c) \<or>
     quota_used (cgroups (refresh_cgroup_periods s vt) ! c) = 0"
  using refresh_cgroup_used
  by (simp add: refresh_cgroup_periods_def Let_def)

lemma selection_frame_fold_schedule_cpu:
  "selection_frame (tl_sched lp) (tl_sched (fold (\<lambda>cpu lp'. schedule_cpu prev tk lp' cpu) cs lp))"
proof (induction cs arbitrary: lp)
  case Nil
  show ?case by simp
next
  case (Cons c cs)
  have "selection_frame (tl_sched lp) (tl_sched (schedule_cpu prev tk lp c))"
    by (rule schedule_cpu_frame)
  also have "selection_frame (tl_sched (schedule_cpu prev tk lp c))
      (tl_sched (fold (\<lambda>cpu lp'. schedule_cpu prev tk lp' cpu) cs (schedule_cpu prev tk lp c)))"
    by (rule Cons)
  finally show ?case by simp
qed

lemma selection_frame_select_all: "selection_frame s (tl_sched (select_all prev tk s))"
  using selection_frame_fold_schedule_cpu
    [of "\<lparr> tl_sched = s, tl_planned = [], tl_assigned = replicate (length (all_tasks s)) False,
          tl_schedule = [] \<rparr>" prev tk "[0..<length (cpu_queues s)]"]
  by (simp add: select_all_def)

lemma tick_cgroups:
  "cgroups (snd (scheduler_tick s vt)) =
     cgroups (account_running (refresh_cgroup_periods
       (s\<lparr>current_vtime := vt, preemptions := 0, migrations := 0\<rparr>) vt))"
proof -
  let ?s2 = "account_running (refresh_cgroup_periods
       (s\<lparr>current_vtime := vt, preemptions := 0, migrations := 0\<rparr>) vt)"
  let ?s3 = "rebuild_runnable_heap ?s2"
  let ?tk = "if (of_int (quanta ?s3) * 1000 :: rat) < 0 then 0 else of_int (quanta ?s3) * 1000"
  let ?lp = "select_all (cpu_queues (refresh_cgroup_periods
       (s\<lparr>current_vtime := vt, preemptions := 0, migrations := 0\<rparr>) vt)) ?tk ?s3"
  let ?s4 = "clear_unassigned (tl_sched ?lp) (tl_assigned ?lp)"
  have t: "snd (scheduler_tick s vt) = ?s4"
    by (simp add: scheduler_tick_def Let_def)
  have "selection_frame ?s3 (tl_sched ?lp)" by (rule selection_frame_select_all)
  also have "selection_frame (tl_sched ?lp) ?s4" by (rule selection_frame_clear)
  finally have "cgroups ?s4 = cgroups ?s3" by (simp add: selection_frame_def)
  then show ?thesis unfolding t by simp
qed

text \<open>A tick that starts within the quotas ends within the quotas.\<close>

lemma tick_quota_ok:
  assumes d: "distinct (all_tasks s)" and b: "length (cgroups s) \<le> MAX_CGROUPS"
    and ok: "quota_ok s"
  shows "quota_ok (snd (scheduler_tick s vt))"
  unfolding quota_ok_def
proof (intro allI impI)
  fix c
  let ?n = "length (cpu_queues s)"
  let ?s0 = "s\<lparr>current_vtime := vt, preemptions := 0, migrations := 0\<rparr>"
  let ?s1 = "refresh_cgroup_periods ?s0 vt"
  let ?s2 = "account_running ?s1"
  let ?s' = "snd (scheduler_tick s vt)"
  assume c': "c < length (cgroups ?s')" and q': "0 \<le> cpu_quota_us (cgroups ?s' ! c)"
  have cg: "cgroups ?s' = cgroups ?s2" by (rule tick_cgroups)
  have ids: "same_ids s ?s'" by (rule same_ids_tick)
  then have n': "length (cpu_queues ?s') = ?n" and qu: "quanta ?s' = quanta s"
    by (simp_all add: same_ids_def)
  have tk': "tick_runtime ?s' = tick_runtime s" using qu by (simp add: tick_runtime_def)
  have f0: "quota_frame s ?s0" by (simp add: quota_frame_def)
  have f1: "quota_frame ?s0 ?s1" by (rule refresh_quota_frame)
  have f01: "quota_frame s ?s1" using f0 f1 by (rule quota_frame_trans)
  have l1: "length (cgroups ?s1) = length (cgroups s)" by (rule quota_frame_nth(1) [OF f01])
  have c1: "c < length (cgroups ?s1)"
  proof -
    have "quota_frame ?s1 ?s2" by (rule quota_frame_account_running)
    then show ?thesis using c' cg quota_frame_nth(1) [of ?s1 ?s2] by simp
  qed
  then have c: "c < length (cgroups s)" using l1 by simp
  note acc = account_running_charge [OF c1]
  have f2: "quota_frame s ?s2" using f01 acc by (blast intro: quota_frame_trans)
  have q: "0 \<le> cpu_quota_us (cgroups s ! c)"
    using q' cg quota_frame_nth(2) [OF f2 c] by simp
  have q2: "cpu_quota_us (cgroups ?s' ! c) = cpu_quota_us (cgroups s ! c)"
    using cg quota_frame_nth(2) [OF f2 c] by simp
  have u0: "0 \<le> quota_used (cgroups s ! c)"
    and u: "quota_used (cgroups s ! c) + of_nat (running_in s ?n c) * tick_runtime s
      \<le> of_int (cpu_quota_us (cgroups s ! c))"
    using ok c q unfolding quota_ok_def by blast+
  have u1: "quota_used (cgroups ?s1 ! c) = quota_used (cgroups s ! c) \<or>
      quota_used (cgroups ?s1 ! c) = 0"
    using refresh_used [of c ?s0 vt] c by simp
  have "running_in ?s1 ?n c = running_in s ?n c"
    by (rule running_in_cong, rule slot_cgroup_frame [OF _ f01]) simp
  then have r1: "running_in ?s1 (length (cpu_queues ?s1)) c = running_in s ?n c"
    by simp
  have t1: "tick_runtime ?s1 = tick_runtime s" by (simp add: tick_runtime_def)
  have lo: "0 \<le> quota_used (cgroups ?s2 ! c)"
    using acc u0 u1 by auto
  have "quota_used (cgroups ?s1 ! c) \<le> quota_used (cgroups s ! c)"
    using u0 u1 by auto
  moreover have "quota_used (cgroups ?s2 ! c) \<le>
      quota_used (cgroups ?s1 ! c) + of_nat (running_in s ?n c) * tick_runtime s"
    using acc r1 t1 by simp
  ultimately have hi: "quota_used (cgroups ?s2 ! c) \<le> of_int (cpu_quota_us (cgroups s ! c))"
    using u by linarith
  have "quota_used (cgroups ?s' ! c) + of_nat (running_in ?s' ?n c) * tick_runtime s
      \<le> of_int (cpu_quota_us (cgroups ?s' ! c))"
  proof (cases "running_in ?s' ?n c > 0")
    case True
    show ?thesis using tick_commit [OF d b c q' True] .
  next
    case False
    then show ?thesis using hi cg q2 by simp
  qed
  then show "0 \<le> quota_used (cgroups ?s' ! c) \<and>
       quota_used (cgroups ?s' ! c) +
         of_nat (running_in ?s' (length (cpu_queues ?s')) c) * tick_runtime ?s'
         \<le> of_int (cpu_quota_us (cgroups ?s' ! c))"
    using lo cg n' tk' by simp
qed

subsection \<open>Events and the quotas\<close>

lemma scheduler_remove_task_slots:
  "i < length (cpu_queues s) \<Longrightarrow>
     cpu_queues (snd (scheduler_remove_task s tid)) ! i = cpu_queues s ! i \<or>
     cpu_queues (snd (scheduler_remove_task s tid)) ! i = None"
  by (simp add: scheduler_remove_task_def Let_def split: option.splits)

lemma scheduler_remove_task_frame:
  "heap_frame (mem s) (mem (snd (scheduler_remove_task s tid))) \<and>
   quanta (snd (scheduler_remove_task s tid)) = quanta s"
  by (simp add: scheduler_remove_task_def Let_def heap_frame_remove split: option.splits)

lemma update_None_nth:
  "i < length xs \<Longrightarrow> xs[k := None] ! i = xs ! i \<or> xs[k := None] ! i = None"
  by (cases "i = k") simp_all

lemma process_event_slots:
  "i < length (cpu_queues s) \<Longrightarrow>
     cpu_queues (snd (scheduler_process_event s e)) ! i = cpu_queues s ! i \<or>
     cpu_queues (snd (scheduler_process_event s e)) ! i = None"
proof (cases "action e")
  case EVENT_TASK_EXIT
  assume i: "i < length (cpu_queues s)"
  show ?thesis
  proof (cases "scheduler_find_task s (ev_task_id e)")
    case None
    with EVENT_TASK_EXIT show ?thesis by (simp add: scheduler_process_event_def)
  next
    case (Some p)
    show ?thesis
      using EVENT_TASK_EXIT Some i
        scheduler_remove_task_slots
          [of i "upd_task s p (\<lambda>t. t\<lparr>state := TASK_STATE_EXITED\<rparr>)" "ev_task_id e"]
      by (simp add: scheduler_process_event_def Let_def)
  qed
next
  case EVENT_TASK_BLOCK
  assume i: "i < length (cpu_queues s)"
  show ?thesis
  proof (cases "scheduler_find_task s (ev_task_id e)")
    case None
    with EVENT_TASK_BLOCK show ?thesis by (simp add: scheduler_process_event_def)
  next
    case (Some p)
    have "cpu_queues (snd (scheduler_process_event s e)) = cpu_queues s \<or>
        (\<exists>k. cpu_queues (snd (scheduler_process_event s e)) = (cpu_queues s)[k := None])"
      using EVENT_TASK_BLOCK Some
      by (auto simp: scheduler_process_event_def Let_def)
    then show ?thesis
    proof (elim disjE exE)
      assume "cpu_queues (snd (scheduler_process_event s e)) = cpu_queues s"
      then show ?thesis by simp
    next
      fix k assume "cpu_queues (snd (scheduler_process_event s e)) = (cpu_queues s)[k := None]"
      then show ?thesis using update_None_nth [OF i, of k] by simp
    qed
  qed
qed (simp_all add: scheduler_process_event_def scheduler_add_task_def
    scheduler_add_cgroup_def scheduler_remove_cgroup_def Let_def split: option.splits)

lemma process_event_next_ptr:
  "next_ptr s \<le> next_ptr (snd (scheduler_process_event s e))"
  by (cases "action e")
    (simp_all add: scheduler_process_event_def scheduler_add_task_def
      scheduler_add_cgroup_def scheduler_remove_cgroup_def scheduler_remove_task_next_ptr
      Let_def split: option.splits)

lemma task_set_nice_cgroup [simp]: "task_cgroup_id (task_set_nice t n) = task_cgroup_id t"
  by (simp add: task_set_nice_def Let_def)

lemma task_set_affinity_cgroup [simp]: "task_cgroup_id (task_set_affinity t m) = task_cgroup_id t"
  by (simp add: task_set_affinity_def Let_def)

lemma process_event_quota_frame:
  assumes "quota_safe (action e)"
  shows "cgroups (snd (scheduler_process_event s e)) = cgroups s \<and>
    quanta (snd (scheduler_process_event s e)) = quanta s \<and>
    (p \<noteq> next_ptr s \<longrightarrow>
       task_cgroup_id (mem (snd (scheduler_process_event s e)) p) = task_cgroup_id (mem s p))"
proof (cases "action e")
  case EVENT_TASK_CREATE
  then show ?thesis
    by (simp add: scheduler_process_event_def scheduler_add_task_def Let_def)
next
  case EVENT_TASK_EXIT
  show ?thesis
  proof (cases "scheduler_find_task s (ev_task_id e)")
    case None
    with EVENT_TASK_EXIT show ?thesis by (simp add: scheduler_process_event_def)
  next
    case (Some q)
    let ?s1 = "upd_task s q (\<lambda>t. t\<lparr>state := TASK_STATE_EXITED\<rparr>)"
    have "task_cgroup_id (mem (snd (scheduler_remove_task ?s1 (ev_task_id e))) p) =
        task_cgroup_id (mem ?s1 p)"
      by (rule heap_frame_fields(6) [OF conjunct1 [OF scheduler_remove_task_frame]])
    moreover have "quanta (snd (scheduler_remove_task ?s1 (ev_task_id e))) = quanta ?s1"
      by (rule conjunct2 [OF scheduler_remove_task_frame])
    ultimately show ?thesis
      using EVENT_TASK_EXIT Some scheduler_remove_task_cgroups [of ?s1 "ev_task_id e"]
      by (simp add: scheduler_process_event_def Let_def)
  qed
next
  case EVENT_TASK_BLOCK
  show ?thesis
  proof (cases "scheduler_find_task s (ev_task_id e)")
    case None
    with EVENT_TASK_BLOCK show ?thesis by (simp add: scheduler_process_event_def)
  next
    case (Some q)
    let ?s1 = "upd_task s q (\<lambda>t. t\<lparr>state := TASK_STATE_BLOCKED\<rparr>)"
    let ?s2 = "if heap_index (mem ?s1 q) \<ge> 0
               then set_hs ?s1 (snd (heap_remove (hs_of ?s1) q)) else ?s1"
    let ?s3 = "if current_cpu (mem ?s2 q) \<ge> 0
               then upd_task
                      (?s2\<lparr>cpu_queues := (cpu_queues ?s2)[nat (current_cpu (mem ?s2 q)) := None]\<rparr>)
                      q (\<lambda>t. t\<lparr>current_cpu := - 1\<rparr>)
               else ?s2"
    have r: "snd (scheduler_process_event s e) = ?s3"
      using EVENT_TASK_BLOCK Some by (simp add: scheduler_process_event_def Let_def)
    have "heap_frame (mem ?s1) (fst (snd (heap_remove (hs_of ?s1) q)))"
      by (simp add: heap_frame_remove)
    then have "task_cgroup_id (fst (snd (heap_remove (hs_of ?s1) q)) p) = task_cgroup_id (mem ?s1 p)"
      for p by (rule heap_frame_fields(6))
    then have m2: "task_cgroup_id (mem ?s2 p) = task_cgroup_id (mem s p)" for p
      by simp
    have c2: "cgroups ?s2 = cgroups s" "quanta ?s2 = quanta s" by simp_all
    have "task_cgroup_id (mem ?s3 p) = task_cgroup_id (mem ?s2 p)" for p
      by simp
    then have m3: "task_cgroup_id (mem ?s3 p) = task_cgroup_id (mem s p)"
      using m2 by simp
    have c3: "cgroups ?s3 = cgroups ?s2" "quanta ?s3 = quanta ?s2" by simp_all
    show ?thesis
      unfolding r using m3 c3 c2 by simp
  qed
next
  case EVENT_TASK_UNBLOCK
  then show ?thesis
    by (simp add: scheduler_process_event_def Let_def split: option.splits)
next
  case EVENT_TASK_YIELD
  show ?thesis
  proof (cases "scheduler_find_task s (ev_task_id e)")
    case None
    with EVENT_TASK_YIELD show ?thesis by (simp add: scheduler_process_event_def)
  next
    case (Some q)
    let ?s1 = "upd_task s q (\<lambda>t. t\<lparr>vruntime := get_max_vruntime s\<rparr>)"
    have "heap_frame (mem ?s1) (fst (heap_update (hs_of ?s1) q))"
      by (simp add: heap_frame_update)
    then have "task_cgroup_id (fst (heap_update (hs_of ?s1) q) p) = task_cgroup_id (mem ?s1 p)"
      by (rule heap_frame_fields(6))
    then show ?thesis
      using EVENT_TASK_YIELD Some
      by (simp add: scheduler_process_event_def Let_def)
  qed
qed (use assms in \<open>simp_all add: scheduler_process_event_def quota_safe_def Let_def
    split: option.splits\<close>)


text \<open>In a reachable scheduler every CPU slot holds an allocated task.\<close>

lemma reachable_slots:
  "reachable s \<Longrightarrow> i < length (cpu_queues s) \<Longrightarrow> cpu_queues s ! i = Some p \<Longrightarrow>
     p < next_ptr s"
proof (induction arbitrary: i p rule: reachable.induct)
  case (init n q)
  then show ?case by (simp add: scheduler_init_def)
next
  case (event s e)
  let ?s' = "snd (scheduler_process_event s e)"
  have i: "i < length (cpu_queues s)"
    using event.prems(1) by (simp add: process_event_cpu_queues)
  from process_event_slots [OF i, of e] event.prems(2)
  have "cpu_queues s ! i = Some p" by auto
  then have "p < next_ptr s" using event.IH i by blast
  then show ?case using process_event_next_ptr [of s e] by simp
next
  case (tick s vt)
  have d: "distinct (all_tasks s)" and a: "\<forall>q \<in> set (all_tasks s). q < next_ptr s"
    using reachable_registry_ok [OF tick.hyps] by (simp_all add: registry_ok_def)
  have ids: "same_ids s (snd (scheduler_tick s vt))" by (rule same_ids_tick)
  then have n: "length (cpu_queues (snd (scheduler_tick s vt))) = length (cpu_queues s)"
    and np: "next_ptr (snd (scheduler_tick s vt)) = next_ptr s"
    by (simp_all add: same_ids_def)
  have "p \<in> set (all_tasks s)"
    using tick_selection [OF d, of vt] tick.prems n by simp
  then show ?case using a np by simp
qed

lemma length_filter_mono:
  "(\<And>x. x \<in> set xs \<Longrightarrow> P x \<Longrightarrow> Q x) \<Longrightarrow> length (filter P xs) \<le> length (filter Q xs)"
  by (induction xs) auto

lemma running_in_mono:
  "(\<And>i. i < k \<Longrightarrow> slot_cgroup s' i = Some c \<Longrightarrow> slot_cgroup s i = Some c) \<Longrightarrow>
     running_in s' k c \<le> running_in s k c"
  unfolding running_in_def by (rule length_filter_mono) simp

text \<open>
  A scheduler stays within its quotas when the cgroups and the quantum stay as they are and
  no CPU slot comes to hold a task of another cgroup.
\<close>

lemma quota_ok_mono:
  assumes ok: "quota_ok s" and cg: "cgroups s' = cgroups s" and q: "quanta s' = quanta s"
    and n: "length (cpu_queues s') = length (cpu_queues s)"
    and sl: "\<And>i c. i < length (cpu_queues s) \<Longrightarrow> slot_cgroup s' i = Some c \<Longrightarrow>
        slot_cgroup s i = Some c"
  shows "quota_ok s'"
  unfolding quota_ok_def
proof (intro allI impI)
  fix c
  assume c: "c < length (cgroups s')" and f: "0 \<le> cpu_quota_us (cgroups s' ! c)"
  let ?n = "length (cpu_queues s)"
  have tk: "tick_runtime s' = tick_runtime s" using q by (simp add: tick_runtime_def)
  have r: "running_in s' ?n c \<le> running_in s ?n c"
    by (rule running_in_mono) (rule sl)
  have u0: "0 \<le> quota_used (cgroups s ! c)"
    and u: "quota_used (cgroups s ! c) + of_nat (running_in s ?n c) * tick_runtime s
      \<le> of_int (cpu_quota_us (cgroups s ! c))"
    using ok c f cg unfolding quota_ok_def by auto
  have "(of_nat (running_in s' ?n c) :: rat) \<le> of_nat (running_in s ?n c)"
    using r by simp
  then have "of_nat (running_in s' ?n c) * tick_runtime s
      \<le> of_nat (running_in s ?n c) * tick_runtime s"
    using tick_runtime_nonneg [of s] by (rule mult_right_mono)
  then show "0 \<le> quota_used (cgroups s' ! c) \<and>
       quota_used (cgroups s' ! c) +
         of_nat (running_in s' (length (cpu_queues s')) c) * tick_runtime s'
         \<le> of_int (cpu_quota_us (cgroups s' ! c))"
    using u0 u cg n tk by simp
qed

text \<open>
  Every event that neither moves a task to another cgroup nor changes the cgroup registry
  keeps a reachable scheduler within its quotas.
\<close>

lemma event_quota_ok:
  assumes r: "reachable s" and ok: "quota_ok s" and safe: "quota_safe (action e)"
  shows "quota_ok (snd (scheduler_process_event s e))"
proof (rule quota_ok_mono [OF ok])
  let ?s' = "snd (scheduler_process_event s e)"
  note fr = process_event_quota_frame [OF safe, of s]
  show cg: "cgroups ?s' = cgroups s" and "quanta ?s' = quanta s"
    using fr by simp_all
  show "length (cpu_queues ?s') = length (cpu_queues s)"
    by (rule process_event_cpu_queues)
  fix i c
  assume i: "i < length (cpu_queues s)" and sc: "slot_cgroup ?s' i = Some c"
  from sc obtain p where p: "cpu_queues ?s' ! i = Some p"
    by (auto simp: slot_cgroup_def split: option.splits)
  with process_event_slots [OF i, of e] have p0: "cpu_queues s ! i = Some p" by auto
  then have "p \<noteq> next_ptr s" using reachable_slots [OF r i] by auto
  then have t: "task_cgroup_id (mem ?s' p) = task_cgroup_id (mem s p)"
    using fr [of p] by simp
  have l: "scheduler_find_cgroup ?s' cid = scheduler_find_cgroup s cid" for cid
    using cg by (simp add: scheduler_find_cgroup_def)
  have "slot_cgroup s i = slot_cgroup ?s' i"
    using p p0 t l by (simp add: slot_cgroup_def)
  then show "slot_cgroup s i = Some c"
    using sc by simp
qed


lemma process_events_quota_ok:
  "reachable s \<Longrightarrow> quota_ok s \<Longrightarrow> \<forall>e \<in> set es. quota_safe (action e) \<Longrightarrow>
     quota_ok (snd (process_events s es))"
proof (induction es arbitrary: s)
  case Nil
  then show ?case by simp
next
  case (Cons e es)
  have "reachable (snd (scheduler_process_event s e))"
    using Cons.prems(1) by (rule reachable.event)
  moreover have "quota_ok (snd (scheduler_process_event s e))"
    using Cons.prems by (simp add: event_quota_ok)
  ultimately show ?case
    using Cons.IH Cons.prems(3) by (simp add: Let_def)
qed

lemma run_frame_quota_ok:
  assumes "reachable s" and "quota_ok s" and "\<forall>e \<in> set (events tf). quota_safe (action e)"
  shows "quota_ok (snd (snd (run_frame s tf)))"
proof -
  let ?s1 = "snd (process_events s (events tf))"
  have r: "reachable ?s1" using assms(1) by (rule reachable_process_events)
  have ok: "quota_ok ?s1" using assms by (rule process_events_quota_ok)
  have "quota_ok (snd (scheduler_tick ?s1 (tf_vtime tf)))"
    using reachable_registry_ok [OF r] reachable_cgroups_bound [OF r] ok
    by (simp add: registry_ok_def tick_quota_ok)
  then show ?thesis by (simp add: run_frame_def Let_def)
qed

lemma run_frames_quota_ok:
  "reachable s \<Longrightarrow> quota_ok s \<Longrightarrow>
   \<forall>tf \<in> set tfs. \<forall>e \<in> set (events tf). quota_safe (action e) \<Longrightarrow>
     quota_ok (snd (run_frames s tfs))"
proof (induction tfs arbitrary: s)
  case Nil
  then show ?case by simp
next
  case (Cons tf tfs)
  have "reachable (snd (snd (run_frame s tf)))"
    using Cons.prems(1) by (rule reachable_run_frame)
  moreover have "quota_ok (snd (snd (run_frame s tf)))"
    using Cons.prems by (simp add: run_frame_quota_ok)
  ultimately show ?case
    using Cons.IH Cons.prems(3) by (simp add: Let_def)
qed

lemma quota_ok_bound:
  assumes "quota_ok s" and "c < length (cgroups s)" and "0 \<le> cpu_quota_us (cgroups s ! c)"
  shows "quota_used (cgroups s ! c) \<le> of_int (cpu_quota_us (cgroups s ! c))"
proof -
  have "0 \<le> of_nat (running_in s (length (cpu_queues s)) c) * tick_runtime s"
    by (simp add: tick_runtime_nonneg)
  moreover have "quota_used (cgroups s ! c) +
      of_nat (running_in s (length (cpu_queues s)) c) * tick_runtime s
      \<le> of_int (cpu_quota_us (cgroups s ! c))"
    using assms unfolding quota_ok_def by blast
  ultimately show ?thesis by linarith
qed

subsection \<open>Boundary values of cgroup and nice events\<close>

text \<open>
  Claim C9 says that CgroupCreate and CgroupModify both replace a supplied shares value
  \<open>\<le> 0\<close> by 1024 and a supplied period \<open>\<le> 0\<close> by 100000. For CgroupModify this fails:
  \<^verbatim>\<open>cgroup_modify\<close> treats such a value as "keep the current one". The scheduler
  \<open>sched_with_group\<close> holds a cgroup with shares 2048 and period 200000; a modify event
  that supplies shares 0 and period 0 leaves both as they are.
\<close>

theorem modify_keeps_shares_counterexample:
  "cpu_shares (cgroups sched_with_group ! 0) = 2048 \<and>
   cpu_period_us (cgroups sched_with_group ! 0) = 200000 \<and>
   scheduler_find_cgroup sched_with_group ''g'' = Some 0 \<and>
   cpu_shares (cgroups (snd (scheduler_process_event sched_with_group
      (cgroup_event EVENT_CGROUP_MODIFY ''g'' 0 (- 1) 0 []))) ! 0) \<noteq> DEFAULT_CPU_SHARES \<and>
   cpu_period_us (cgroups (snd (scheduler_process_event sched_with_group
      (cgroup_event EVENT_CGROUP_MODIFY ''g'' 0 (- 1) 0 []))) ! 0) \<noteq> DEFAULT_CPU_PERIOD_US"
  by code_simp

text \<open>
  Claim C9, as amended: a CgroupCreate event that fits the registry yields a cgroup whose
  shares are the supplied value when it is positive and 1024 otherwise, and whose period is
  the supplied value when it is positive and 100000 otherwise; a CgroupModify event for a
  registered cgroup sets shares (period) to the supplied value when it is positive and keeps
  the cgroup's current shares (period) otherwise; TaskSetNice for a registered task and
  TaskCreate clamp the nice value into \<open>[-20, 19]\<close> and derive the weight from the clamped
  value.
\<close>

theorem boundary_clamp_events:
  "(action e = EVENT_CGROUP_CREATE \<and> length (cgroups s) < MAX_CGROUPS \<longrightarrow>
      cpu_shares (last (cgroups (snd (scheduler_process_event s e)))) =
        (if has_cpu_shares e \<and> ev_cpu_shares e > 0 then ev_cpu_shares e else 1024) \<and>
      cpu_period_us (last (cgroups (snd (scheduler_process_event s e)))) =
        (if has_cpu_period e \<and> ev_cpu_period_us e > 0 then ev_cpu_period_us e else 100000)) \<and>
   (action e = EVENT_CGROUP_MODIFY \<and> scheduler_find_cgroup s (ev_cgroup_id e) = Some c \<longrightarrow>
      cpu_shares (cgroups (snd (scheduler_process_event s e)) ! c) =
        (if has_cpu_shares e \<and> ev_cpu_shares e > 0 then ev_cpu_shares e
         else cpu_shares (cgroups s ! c)) \<and>
      cpu_period_us (cgroups (snd (scheduler_process_event s e)) ! c) =
        (if has_cpu_period e \<and> ev_cpu_period_us e > 0 then ev_cpu_period_us e
         else cpu_period_us (cgroups s ! c))) \<and>
   (action e = EVENT_TASK_SETNICE \<and> scheduler_find_task s (ev_task_id e) = Some p \<longrightarrow>
      nice (mem (snd (scheduler_process_event s e)) p) = max (- 20) (min 19 (ev_nice e)) \<and>
      weight (mem (snd (scheduler_process_event s e)) p) =
        nice_to_weight (max (- 20) (min 19 (ev_nice e)))) \<and>
   (action e = EVENT_TASK_CREATE \<longrightarrow>
      nice (mem (snd (scheduler_process_event s e)) (next_ptr s)) =
        max (- 20) (min 19 (if has_nice e then ev_nice e else 0)) \<and>
      weight (mem (snd (scheduler_process_event s e)) (next_ptr s)) =
        nice_to_weight (max (- 20) (min 19 (if has_nice e then ev_nice e else 0))))"
proof (intro conjI impI)
  assume a: "action e = EVENT_CGROUP_CREATE \<and> length (cgroups s) < MAX_CGROUPS"
  then show "cpu_shares (last (cgroups (snd (scheduler_process_event s e)))) =
        (if has_cpu_shares e \<and> ev_cpu_shares e > 0 then ev_cpu_shares e else 1024)"
    by (simp add: scheduler_process_event_def scheduler_add_cgroup_def cgroup_create_def
        DEFAULT_CPU_SHARES_def Let_def)
  from a show "cpu_period_us (last (cgroups (snd (scheduler_process_event s e)))) =
        (if has_cpu_period e \<and> ev_cpu_period_us e > 0 then ev_cpu_period_us e else 100000)"
    by (simp add: scheduler_process_event_def scheduler_add_cgroup_def cgroup_create_def
        DEFAULT_CPU_PERIOD_US_def Let_def)
next
  assume a: "action e = EVENT_CGROUP_MODIFY \<and> scheduler_find_cgroup s (ev_cgroup_id e) = Some c"
  then have c: "c < length (cgroups s)"
    using scheduler_find_cgroup_Some by blast
  from a c show "cpu_shares (cgroups (snd (scheduler_process_event s e)) ! c) =
        (if has_cpu_shares e \<and> ev_cpu_shares e > 0 then ev_cpu_shares e
         else cpu_shares (cgroups s ! c))"
    by (simp add: scheduler_process_event_def cgroup_modify_def cgroup_reset_period_def Let_def
        split: option.splits list.splits)
  from a c show "cpu_period_us (cgroups (snd (scheduler_process_event s e)) ! c) =
        (if has_cpu_period e \<and> ev_cpu_period_us e > 0 then ev_cpu_period_us e
         else cpu_period_us (cgroups s ! c))"
    by (simp add: scheduler_process_event_def cgroup_modify_def cgroup_reset_period_def Let_def
        split: option.splits list.splits)
next
  assume a: "action e = EVENT_TASK_SETNICE \<and> scheduler_find_task s (ev_task_id e) = Some p"
  then show "nice (mem (snd (scheduler_process_event s e)) p) = max (- 20) (min 19 (ev_nice e))"
    by (simp add: scheduler_process_event_def upd_task_def task_set_nice_def clamp_nice Let_def)
  from a show "weight (mem (snd (scheduler_process_event s e)) p) =
        nice_to_weight (max (- 20) (min 19 (ev_nice e)))"
    by (simp add: scheduler_process_event_def upd_task_def task_set_nice_def clamp_nice Let_def)
next
  assume a: "action e = EVENT_TASK_CREATE"
  then show "nice (mem (snd (scheduler_process_event s e)) (next_ptr s)) =
        max (- 20) (min 19 (if has_nice e then ev_nice e else 0))"
    by (simp add: scheduler_process_event_def scheduler_add_task_def Let_def
        task_create_def task_set_affinity_def clamp_nice)
  from a show "weight (mem (snd (scheduler_process_event s e)) (next_ptr s)) =
        nice_to_weight (max (- 20) (min 19 (if has_nice e then ev_nice e else 0)))"
    by (simp add: scheduler_process_event_def scheduler_add_task_def Let_def
        task_create_def task_set_affinity_def clamp_nice)
qed

theorem boundary_clamp_events_witness:
  "cpu_shares (last (cgroups (snd (scheduler_process_event (scheduler_init 1 1)
      (cgroup_event EVENT_CGROUP_CREATE ''g'' 0 (- 1) (- 5) []))))) = 1024 \<and>
   cpu_period_us (last (cgroups (snd (scheduler_process_event (scheduler_init 1 1)
      (cgroup_event EVENT_CGROUP_CREATE ''g'' 0 (- 1) (- 5) []))))) = 100000 \<and>
   cpu_shares (cgroups (snd (scheduler_process_event sched_with_group
      (cgroup_event EVENT_CGROUP_MODIFY ''g'' 0 (- 1) 0 []))) ! 0) = 2048 \<and>
   cpu_period_us (cgroups (snd (scheduler_process_event sched_with_group
      (cgroup_event EVENT_CGROUP_MODIFY ''g'' 0 (- 1) 0 []))) ! 0) = 200000 \<and>
   nice (mem (snd (scheduler_process_event (scheduler_init 1 1)
      ((task_event EVENT_TASK_CREATE ''T'')\<lparr>ev_nice := 50, has_nice := True\<rparr>))) 0) = 19 \<and>
   nice (mem (snd (scheduler_process_event sched_with_task
      ((task_event EVENT_TASK_SETNICE ''T'')\<lparr>ev_nice := - 21\<rparr>))) 0) = - 20"
proof -
  let ?e4 = "(task_event EVENT_TASK_SETNICE ''T'')\<lparr>ev_nice := - 21\<rparr>"
  have h4: "action ?e4 = EVENT_TASK_SETNICE \<and>
      scheduler_find_task sched_with_task (ev_task_id ?e4) = Some 0"
    by code_simp
  have v4: "ev_nice ?e4 = - 21"
    by (simp add: task_event_def event0_def)
  let ?e1 = "cgroup_event EVENT_CGROUP_CREATE ''g'' 0 (- 1) (- 5) []"
  let ?e2 = "cgroup_event EVENT_CGROUP_MODIFY ''g'' 0 (- 1) 0 []"
  let ?e3 = "(task_event EVENT_TASK_CREATE ''T'')\<lparr>ev_nice := 50, has_nice := True\<rparr>"
  have h1: "action ?e1 = EVENT_CGROUP_CREATE \<and> length (cgroups (scheduler_init 1 1)) < MAX_CGROUPS"
    by (simp add: cgroup_event_def event0_def scheduler_init_def MAX_CGROUPS_def)
  have h2: "action ?e2 = EVENT_CGROUP_MODIFY \<and>
      scheduler_find_cgroup sched_with_group (ev_cgroup_id ?e2) = Some 0"
    by code_simp
  have h3: "action ?e3 = EVENT_TASK_CREATE"
    by (simp add: task_event_def event0_def)
  have v1: "\<not> (has_cpu_shares ?e1 \<and> ev_cpu_shares ?e1 > 0)" "\<not> (has_cpu_period ?e1 \<and> ev_cpu_period_us ?e1 > 0)"
    by (simp_all add: cgroup_event_def event0_def)
  have v2: "\<not> (has_cpu_shares ?e2 \<and> ev_cpu_shares ?e2 > 0)" "\<not> (has_cpu_period ?e2 \<and> ev_cpu_period_us ?e2 > 0)"
    "cpu_shares (cgroups sched_with_group ! 0) = 2048"
    "cpu_period_us (cgroups sched_with_group ! 0) = 200000"
    by code_simp+
  have v3: "has_nice ?e3" "ev_nice ?e3 = 50" "next_ptr (scheduler_init 1 1) = 0"
    by (simp_all add: task_event_def event0_def scheduler_init_def)
  show ?thesis
    using boundary_clamp_events [of ?e1 "scheduler_init 1 1" 0 0]
      boundary_clamp_events [of ?e2 sched_with_group 0 0]
      boundary_clamp_events [of ?e3 "scheduler_init 1 1" 0 0]
      boundary_clamp_events [of ?e4 sched_with_task 0 0]
      h1 h2 h3 h4 v1 v2 v3 v4
    by simp
qed

subsection \<open>Failure indications of the dispatcher\<close>

text \<open>
  Claim C8 says that \<^verbatim>\<open>scheduler_process_event\<close> returns a failure indicator exactly when
  the action is unknown or the event references a nonexistent task or cgroup. The second
  half fails: every task and cgroup branch guards its work with \<^verbatim>\<open>if (task)\<close> or
  \<^verbatim>\<open>if (cgroup)\<close> and then returns 0, and the result of \<^verbatim>\<open>scheduler_remove_cgroup\<close> is
  dropped. In a fresh scheduler, an exit event for an unknown task and a delete event for
  an unknown cgroup both return 0.
\<close>

theorem missing_task_returns_success_counterexample:
  "scheduler_find_task (scheduler_init 2 1) ''nobody'' = None \<and>
   fst (scheduler_process_event (scheduler_init 2 1) (task_event EVENT_TASK_EXIT ''nobody'')) = 0 \<and>
   scheduler_find_cgroup (scheduler_init 2 1) ''nogroup'' = None \<and>
   fst (scheduler_process_event (scheduler_init 2 1)
     (event0\<lparr>action := EVENT_CGROUP_DELETE, ev_cgroup_id := ''nogroup''\<rparr>)) = 0"
  by code_simp

text \<open>
  Claim C8, as amended: \<^verbatim>\<open>scheduler_process_event\<close> returns a nonzero value exactly when
  the action is unknown; a task event (other than TaskCreate) whose task does not exist and
  a CgroupModify or CgroupDelete event whose cgroup does not exist return 0 and leave the
  scheduler as it was; and whatever the events of a frame returned, the tick that follows
  yields a decision record that carries the frame's virtual time and one schedule entry per
  CPU.
\<close>

theorem process_event_failure:
  "(fst (scheduler_process_event s e) \<noteq> 0 \<longleftrightarrow> action e = EVENT_INVALID) \<and>
   (action e \<in> {EVENT_TASK_EXIT, EVENT_TASK_BLOCK, EVENT_TASK_UNBLOCK, EVENT_TASK_YIELD,
                 EVENT_TASK_SETNICE, EVENT_TASK_SET_AFFINITY, EVENT_TASK_MOVE_CGROUP,
                 EVENT_CPU_BURST} \<and>
    scheduler_find_task s (ev_task_id e) = None \<longrightarrow>
      scheduler_process_event s e = (0, s)) \<and>
   (action e \<in> {EVENT_CGROUP_MODIFY, EVENT_CGROUP_DELETE} \<and>
    scheduler_find_cgroup s (ev_cgroup_id e) = None \<longrightarrow>
      scheduler_process_event s e = (0, s)) \<and>
   vtime (fst (snd (run_frame s tf))) = tf_vtime tf \<and>
   length (schedule (fst (snd (run_frame s tf)))) = length (cpu_queues s)"
proof (intro conjI impI)
  show "(fst (scheduler_process_event s e) \<noteq> 0) = (action e = EVENT_INVALID)"
    by (cases "action e")
      (simp_all add: scheduler_process_event_def Let_def split: option.splits)
next
  assume "action e \<in> {EVENT_TASK_EXIT, EVENT_TASK_BLOCK, EVENT_TASK_UNBLOCK, EVENT_TASK_YIELD,
                 EVENT_TASK_SETNICE, EVENT_TASK_SET_AFFINITY, EVENT_TASK_MOVE_CGROUP,
                 EVENT_CPU_BURST} \<and>
    scheduler_find_task s (ev_task_id e) = None"
  then show "scheduler_process_event s e = (0, s)"
    by (auto simp: scheduler_process_event_def)
next
  assume "action e \<in> {EVENT_CGROUP_MODIFY, EVENT_CGROUP_DELETE} \<and>
    scheduler_find_cgroup s (ev_cgroup_id e) = None"
  then show "scheduler_process_event s e = (0, s)"
    by (auto simp: scheduler_process_event_def scheduler_remove_cgroup_def)
next
  show "vtime (fst (snd (run_frame s tf))) = tf_vtime tf"
    by (simp add: run_frame_def Let_def scheduler_tick_record)
  show "length (schedule (fst (snd (run_frame s tf)))) = length (cpu_queues s)"
    by (simp add: run_frame_def Let_def scheduler_tick_record process_events_cpu_queues)
qed

theorem process_event_failure_witness:
  "fst (scheduler_process_event (scheduler_init 2 1) (event0\<lparr>action := EVENT_INVALID\<rparr>)) \<noteq> 0 \<and>
   scheduler_process_event (scheduler_init 2 1) (task_event EVENT_TASK_BLOCK ''nobody'') =
     (0, scheduler_init 2 1) \<and>
   scheduler_process_event (scheduler_init 2 1)
     (event0\<lparr>action := EVENT_CGROUP_DELETE, ev_cgroup_id := ''nogroup''\<rparr>) =
     (0, scheduler_init 2 1) \<and>
   vtime (fst (snd (run_frame (scheduler_init 2 1)
     (frame 7 [event0\<lparr>action := EVENT_INVALID\<rparr>, task_event EVENT_TASK_BLOCK ''nobody''])))) = 7 \<and>
   length (schedule (fst (snd (run_frame (scheduler_init 2 1)
     (frame 7 [event0\<lparr>action := EVENT_INVALID\<rparr>, task_event EVENT_TASK_BLOCK ''nobody''])))))
     = 2"
proof -
  let ?s = "scheduler_init 2 1"
  let ?e1 = "event0\<lparr>action := EVENT_INVALID\<rparr>"
  let ?e2 = "task_event EVENT_TASK_BLOCK ''nobody''"
  let ?e3 = "event0\<lparr>action := EVENT_CGROUP_DELETE, ev_cgroup_id := ''nogroup''\<rparr>"
  let ?tf = "frame 7 [?e1, ?e2]"
  have h1: "action ?e1 = EVENT_INVALID" by simp
  have h2: "action ?e2 = EVENT_TASK_BLOCK" "scheduler_find_task ?s (ev_task_id ?e2) = None"
    by (simp_all add: task_event_def scheduler_find_task_def scheduler_init_def)
  have h3: "action ?e3 = EVENT_CGROUP_DELETE" "scheduler_find_cgroup ?s (ev_cgroup_id ?e3) = None"
    by (simp_all add: scheduler_find_cgroup_def scheduler_init_def)
  have h4: "tf_vtime ?tf = 7" "length (cpu_queues ?s) = 2"
    by (simp_all add: frame_def scheduler_init_def)
  show ?thesis
    using process_event_failure [of ?s ?e1 ?tf] process_event_failure [of ?s ?e2 ?tf]
      process_event_failure [of ?s ?e3 ?tf] h1 h2 h3 h4
    by simp
qed

subsection \<open>TaskCreate for an id that is already registered\<close>

text \<open>
  Claim C5 says that a TaskCreate event whose id names a registered task creates nothing and
  leaves the registry unchanged. The dispatcher never looks the id up: \<open>sched_with_task\<close>
  holds one task named \<open>''T''\<close>, and a second TaskCreate for \<open>''T''\<close> leaves two tasks of
  that name in the registry.
\<close>

theorem duplicate_task_create_counterexample:
  "scheduler_find_task sched_with_task ''T'' = Some 0 \<and>
   all_tasks sched_with_task = [0] \<and>
   all_tasks (snd (scheduler_process_event sched_with_task (task_event EVENT_TASK_CREATE ''T'')))
     = [0, 1] \<and>
   map (\<lambda>p. task_id (mem (snd (scheduler_process_event sched_with_task
     (task_event EVENT_TASK_CREATE ''T''))) p)) [0, 1] = [''T'', ''T'']"
  by code_simp

text \<open>
  Claim C5, as amended: a TaskCreate event always returns 0; when the registry has room
  (fewer than \<open>MAX_TASKS\<close> tasks) it appends a newly allocated task that carries the event's
  id and is Runnable, whether or not the id is already registered, and only a full
  registry stays as it was. Every task that existed before is the same task afterwards (only heap positions may
  move), and \<^verbatim>\<open>scheduler_find_task\<close> keeps returning the older task of that id.
\<close>

theorem task_create_appends:
  assumes "action e = EVENT_TASK_CREATE"
  shows "fst (scheduler_process_event s e) = 0 \<and>
     (length (all_tasks s) < MAX_TASKS \<longrightarrow>
        all_tasks (snd (scheduler_process_event s e)) = all_tasks s @ [next_ptr s] \<and>
        task_id (mem (snd (scheduler_process_event s e)) (next_ptr s)) = ev_task_id e \<and>
        state (mem (snd (scheduler_process_event s e)) (next_ptr s)) = TASK_STATE_RUNNABLE) \<and>
     (length (all_tasks s) \<ge> MAX_TASKS \<longrightarrow>
        all_tasks (snd (scheduler_process_event s e)) = all_tasks s) \<and>
     (\<forall>p. p \<noteq> next_ptr s \<longrightarrow> same_task (mem s p) (mem (snd (scheduler_process_event s e)) p)) \<and>
     (next_ptr s \<notin> set (all_tasks s) \<and> scheduler_find_task s (ev_task_id e) = Some q \<longrightarrow>
        scheduler_find_task (snd (scheduler_process_event s e)) (ev_task_id e) = Some q)"
proof -
  let ?s' = "snd (scheduler_process_event s e)"
  have r: "fst (scheduler_process_event s e) = 0"
    using assms by (simp add: scheduler_process_event_def Let_def)
  have a: "length (all_tasks s) < MAX_TASKS \<Longrightarrow> all_tasks ?s' = all_tasks s @ [next_ptr s]"
    using assms by (simp add: scheduler_process_event_def scheduler_add_task_def Let_def)
  have b: "length (all_tasks s) < MAX_TASKS \<Longrightarrow> task_id (mem ?s' (next_ptr s)) = ev_task_id e"
    using assms
    by (simp add: scheduler_process_event_def scheduler_add_task_def Let_def task_create_def
        task_set_affinity_def)
  have b': "length (all_tasks s) < MAX_TASKS \<Longrightarrow>
      state (mem ?s' (next_ptr s)) = TASK_STATE_RUNNABLE"
    using assms
    by (simp add: scheduler_process_event_def scheduler_add_task_def Let_def task_create_def
        task_set_affinity_def)
  have c: "length (all_tasks s) \<ge> MAX_TASKS \<Longrightarrow> all_tasks ?s' = all_tasks s"
    using assms by (simp add: scheduler_process_event_def scheduler_add_task_def Let_def)
  have d: "same_task (mem s p) (mem ?s' p)" if "p \<noteq> next_ptr s" for p
  proof -
    have "heap_frame ((mem s)(next_ptr s := t)) (mem (sched_heap_insert
        (s\<lparr>mem := (mem s)(next_ptr s := t), next_ptr := Suc (next_ptr s),
           all_tasks := all_tasks s @ [next_ptr s]\<rparr>) (next_ptr s)))" for t
      using sched_heap_insert_frame
        [of "s\<lparr>mem := (mem s)(next_ptr s := t), next_ptr := Suc (next_ptr s),
           all_tasks := all_tasks s @ [next_ptr s]\<rparr>" "next_ptr s"]
      by simp
    then have "same_task (((mem s)(next_ptr s := t)) p) (mem (sched_heap_insert
        (s\<lparr>mem := (mem s)(next_ptr s := t), next_ptr := Suc (next_ptr s),
           all_tasks := all_tasks s @ [next_ptr s]\<rparr>) (next_ptr s)) p)" for t
      by (simp add: heap_frame_def)
    then show ?thesis
      using assms that
      by (simp add: scheduler_process_event_def scheduler_add_task_def Let_def)
  qed
  have f: "scheduler_find_task ?s' (ev_task_id e) = Some q"
    if n: "next_ptr s \<notin> set (all_tasks s)" and q: "scheduler_find_task s (ev_task_id e) = Some q"
  proof -
    have same: "task_id (mem ?s' p) = task_id (mem s p)" if "p \<in> set (all_tasks s)" for p
      using d [of p] n that same_task_fields(1) [of "mem s p" "mem ?s' p"] by auto
    have "List.find (\<lambda>p. task_id (mem ?s' p) = ev_task_id e) (all_tasks s) = Some q"
      using q find_cong_set [of "all_tasks s" "\<lambda>p. task_id (mem ?s' p) = ev_task_id e"
          "\<lambda>p. task_id (mem s p) = ev_task_id e"] same
      by (simp add: scheduler_find_task_def)
    then show ?thesis
      using a c find_append_first
      by (cases "length (all_tasks s) < MAX_TASKS") (simp_all add: scheduler_find_task_def)
  qed
  show ?thesis
    using r a b b' c d f by blast
qed

theorem task_create_appends_witness:
  "fst (scheduler_process_event sched_with_task (task_event EVENT_TASK_CREATE ''T'')) = 0 \<and>
   all_tasks (snd (scheduler_process_event sched_with_task (task_event EVENT_TASK_CREATE ''T'')))
     = [0, 1] \<and>
   task_id (mem (snd (scheduler_process_event sched_with_task
     (task_event EVENT_TASK_CREATE ''T''))) 1) = ''T'' \<and>
   state (mem (snd (scheduler_process_event sched_with_task
     (task_event EVENT_TASK_CREATE ''T''))) 1) = TASK_STATE_RUNNABLE \<and>
   same_task (mem sched_with_task 0)
     (mem (snd (scheduler_process_event sched_with_task (task_event EVENT_TASK_CREATE ''T''))) 0) \<and>
   scheduler_find_task (snd (scheduler_process_event sched_with_task
     (task_event EVENT_TASK_CREATE ''T''))) ''T'' = Some 0"
proof -
  let ?e = "task_event EVENT_TASK_CREATE ''T''"
  have h: "action ?e = EVENT_TASK_CREATE" "ev_task_id ?e = ''T''"
    by (simp_all add: task_event_def)
  have v: "length (all_tasks sched_with_task) < MAX_TASKS" "all_tasks sched_with_task = [0]"
    "next_ptr sched_with_task = 1" "scheduler_find_task sched_with_task ''T'' = Some 0"
    by code_simp+
  show ?thesis
    using task_create_appends [OF h(1), of sched_with_task 0] h(2) v by simp
qed

subsection \<open>Tasks whose cgroup is not registered\<close>

text \<open>
  Claim C10: a task whose \<open>cgroup_id\<close> matches no cgroup of the registry is unconstrained
  by cgroups. For such a task the CPU test of the selection is the task's own affinity
  test, the quota test never defers it, and its effective weight is the weight of its nice
  value; when it is the minimum of the heap, the selection loop takes it if its affinity
  admits the CPU and defers it otherwise. No cgroup is registered implicitly, the default id
  \<open>''0''\<close> included: the registry starts empty, an id that is absent stays absent over every
  event but a CgroupCreate of that very id, and over every tick.
\<close>

theorem unregistered_cgroup_unconstrained:
  "(scheduler_find_cgroup s (task_cgroup_id t) = None \<longrightarrow>
      can_task_run_on_cpu s t cpu = task_can_run_on_cpu t cpu \<and>
      \<not> quota_defers s pl tk t \<and>
      (weight t = nice_to_weight (nice t) \<longrightarrow>
         get_effective_task_weight s t = nice_to_weight (nice t))) \<and>
   (\<not> heap_is_empty (runnable_heap s) \<and>
    scheduler_find_cgroup s (task_cgroup_id (mem s (runnable_heap s ! 0))) = None \<longrightarrow>
      pick_loop s cpu pl tk d =
        (if task_can_run_on_cpu (mem s (runnable_heap s ! 0)) cpu
         then (Some (runnable_heap s ! 0), set_hs s (snd (heap_extract_min (hs_of s))), d)
         else pick_loop (set_hs s (snd (heap_extract_min (hs_of s)))) cpu pl tk
                (d @ [runnable_heap s ! 0]))) \<and>
   scheduler_find_cgroup (scheduler_init n q) cid = None \<and>
   ((action e \<noteq> EVENT_CGROUP_CREATE \<or> ev_cgroup_id e \<noteq> cid) \<and>
    scheduler_find_cgroup s cid = None \<longrightarrow>
      scheduler_find_cgroup (snd (scheduler_process_event s e)) cid = None) \<and>
   (scheduler_find_cgroup s cid = None \<longrightarrow>
      scheduler_find_cgroup (snd (scheduler_tick s vt)) cid = None)"
proof (intro conjI impI)
  assume a: "scheduler_find_cgroup s (task_cgroup_id t) = None"
  then show "can_task_run_on_cpu s t cpu = task_can_run_on_cpu t cpu"
    by (simp add: can_task_run_on_cpu_def)
  from a show "\<not> quota_defers s pl tk t"
    by (simp add: quota_defers_def)
  assume w: "weight t = nice_to_weight (nice t)"
  from a w show "get_effective_task_weight s t = nice_to_weight (nice t)"
    using nice_to_weight_range [of "nice t"]
    by (simp add: get_effective_task_weight_def Let_def int_of_llong_id)
next
  let ?p = "runnable_heap s ! 0"
  let ?s1 = "set_hs s (snd (heap_extract_min (hs_of s)))"
  assume a: "\<not> heap_is_empty (runnable_heap s) \<and>
    scheduler_find_cgroup s (task_cgroup_id (mem s ?p)) = None"
  have "heap_frame (mem s) (mem ?s1)"
    by (simp add: heap_frame_extract_min)
  then have st: "same_task (mem s ?p) (mem ?s1 ?p)"
    by (simp add: heap_frame_def)
  have cg: "cgroups ?s1 = cgroups s" by simp
  have can: "can_task_run_on_cpu ?s1 (mem ?s1 ?p) cpu = task_can_run_on_cpu (mem s ?p) cpu"
    using same_task_can_run [OF st cg, of cpu] a by (simp add: can_task_run_on_cpu_def)
  have nd: "\<not> quota_defers ?s1 pl tk (mem ?s1 ?p)"
    using same_task_quota_defers [OF st cg, of pl tk] a by (simp add: quota_defers_def)
  show "pick_loop s cpu pl tk d =
        (if task_can_run_on_cpu (mem s ?p) cpu then (Some ?p, ?s1, d)
         else pick_loop ?s1 cpu pl tk (d @ [?p]))"
  proof (cases "task_can_run_on_cpu (mem s ?p) cpu")
    case True
    with can nd a pick_loop_select [of s ?p ?s1 cpu pl tk d] show ?thesis by simp
  next
    case False
    with can a pick_loop_defer [of s ?p ?s1 cpu pl tk d] show ?thesis by simp
  qed
next
  show "scheduler_find_cgroup (scheduler_init n q) cid = None"
    by (simp add: scheduler_find_cgroup_def scheduler_init_def)
next
  assume "(action e \<noteq> EVENT_CGROUP_CREATE \<or> ev_cgroup_id e \<noteq> cid) \<and>
    scheduler_find_cgroup s cid = None"
  then show "scheduler_find_cgroup (snd (scheduler_process_event s e)) cid = None"
    using process_event_keeps_absent by blast
next
  assume "scheduler_find_cgroup s cid = None"
  then show "scheduler_find_cgroup (snd (scheduler_tick s vt)) cid = None"
    by (rule tick_keeps_absent)
qed


theorem unregistered_cgroup_unconstrained_witness:
  "scheduler_find_cgroup sched_with_task (task_cgroup_id (mem sched_with_task 0)) = None \<and>
   can_task_run_on_cpu sched_with_task (mem sched_with_task 0) 0 \<and>
   \<not> quota_defers sched_with_task [] 1000 (mem sched_with_task 0) \<and>
   get_effective_task_weight sched_with_task (mem sched_with_task 0) = 1024 \<and>
   fst (pick_loop sched_with_task 0 [] 1000 []) = Some 0 \<and>
   scheduler_find_cgroup (snd (scheduler_process_event sched_with_task
     (cgroup_event EVENT_CGROUP_CREATE ''g'' 1024 (- 1) 100000 []))) ''0'' = None \<and>
   scheduler_find_cgroup (snd (scheduler_tick sched_with_task 0)) ''0'' = None"
proof -
  let ?s = sched_with_task
  let ?e = "cgroup_event EVENT_CGROUP_CREATE ''g'' 1024 (- 1) 100000 []"
  have h: "scheduler_find_cgroup ?s (task_cgroup_id (mem ?s 0)) = None"
    "weight (mem ?s 0) = nice_to_weight (nice (mem ?s 0))"
    "nice_to_weight (nice (mem ?s 0)) = 1024"
    "\<not> heap_is_empty (runnable_heap ?s)" "runnable_heap ?s ! 0 = 0"
    "task_can_run_on_cpu (mem ?s 0) 0"
    "ev_cgroup_id ?e \<noteq> ''0''" "scheduler_find_cgroup ?s ''0'' = None"
    by code_simp+
  show ?thesis
    using unregistered_cgroup_unconstrained [where s = ?s and t = "mem ?s 0" and cpu = 0
        and pl = "[]" and tk = 1000 and d = "[]" and cid = "''0''" and e = ?e and vt = 0
        and n = 1 and q = 1] h
    by simp
qed

subsection \<open>Accounting of a task in a burst\<close>

text \<open>
  Claim C6 says that the accounting step leaves the vruntime of a running task in a burst
  unchanged and still adds \<open>quantum * 1000\<close> microseconds to the used total of the task's
  cgroup whenever that cgroup has a finite quota. The second half fails for the finite quota
  0: \<^verbatim>\<open>cgroup_account_runtime\<close> charges only a cgroup whose quota is positive. In
  \<open>sched_burst_in 0\<close> the task on CPU 0 is running, in a burst, and has been moved into a
  cgroup of quota 0; the accounting of the next tick leaves the used total at 0.
\<close>

theorem zero_quota_not_charged_counterexample:
  "cpu_queues (sched_burst_in 0) ! 0 = Some 0 \<and>
   state (mem (sched_burst_in 0) 0) = TASK_STATE_RUNNING \<and>
   is_burst (mem (sched_burst_in 0) 0) \<and>
   scheduler_find_cgroup (sched_burst_in 0) (task_cgroup_id (mem (sched_burst_in 0) 0)) = Some 0 \<and>
   cpu_quota_us (cgroups (sched_burst_in 0) ! 0) = 0 \<and>
   quanta (sched_burst_in 0) = 1 \<and>
   quota_used (cgroups (sched_burst_in 0) ! 0) = 0 \<and>
   quota_used (cgroups (account_cpu (sched_burst_in 0) 0) ! 0) = 0 \<and>
   quota_used (cgroups (account_cpu (sched_burst_in 0) 0) ! 0) \<noteq>
     quota_used (cgroups (sched_burst_in 0) ! 0) + of_int (quanta (sched_burst_in 0)) * 1000 \<and>
   quota_used (cgroups (snd (scheduler_tick (sched_burst_in 0) 1)) ! 0) = 0"
  by code_simp

text \<open>
  Claim C6, as amended: a task that is running and in a burst has the same vruntime after
  the accounting loop of a tick as before, and after the accounting step of the CPU it
  occupies; and for a running task, in a burst or not, whose non-empty cgroup id names a
  registered cgroup with a positive quota, the accounting step of its CPU adds
  \<open>quantum * 1000\<close> microseconds to that cgroup's used total (the quantum being positive),
  while a cgroup whose quota is 0 or negative is not charged.
\<close>

theorem burst_accounting:
  "(state (mem s p) = TASK_STATE_RUNNING \<and> is_burst (mem s p) \<longrightarrow>
      vruntime (mem (account_running s) p) = vruntime (mem s p)) \<and>
   (cpu_queues s ! i = Some p \<and> state (mem s p) = TASK_STATE_RUNNING \<and> is_burst (mem s p) \<longrightarrow>
      vruntime (mem (account_cpu s i) p) = vruntime (mem s p)) \<and>
   (cpu_queues s ! i = Some p \<and> state (mem s p) = TASK_STATE_RUNNING \<and>
    task_cgroup_id (mem s p) \<noteq> [] \<and>
    scheduler_find_cgroup s (task_cgroup_id (mem s p)) = Some c \<and>
    cpu_quota_us (cgroups s ! c) > 0 \<and> quanta s > 0 \<longrightarrow>
      quota_used (cgroups (account_cpu s i) ! c) =
        quota_used (cgroups s ! c) + of_int (quanta s) * 1000) \<and>
   (cpu_queues s ! i = Some p \<and> state (mem s p) = TASK_STATE_RUNNING \<and>
    task_cgroup_id (mem s p) \<noteq> [] \<and>
    scheduler_find_cgroup s (task_cgroup_id (mem s p)) = Some c \<and>
    cpu_quota_us (cgroups s ! c) \<le> 0 \<longrightarrow>
      quota_used (cgroups (account_cpu s i) ! c) = quota_used (cgroups s ! c))"
proof (intro conjI impI)
  assume "state (mem s p) = TASK_STATE_RUNNING \<and> is_burst (mem s p)"
  then show "vruntime (mem (account_running s) p) = vruntime (mem s p)"
    by (simp add: account_running_def fold_account_cpu_burst_invariant)
next
  assume "cpu_queues s ! i = Some p \<and> state (mem s p) = TASK_STATE_RUNNING \<and> is_burst (mem s p)"
  then show "vruntime (mem (account_cpu s i) p) = vruntime (mem s p)"
    by (simp add: account_cpu_vruntime)
next
  assume a: "cpu_queues s ! i = Some p \<and> state (mem s p) = TASK_STATE_RUNNING \<and>
    task_cgroup_id (mem s p) \<noteq> [] \<and>
    scheduler_find_cgroup s (task_cgroup_id (mem s p)) = Some c \<and>
    cpu_quota_us (cgroups s ! c) > 0 \<and> quanta s > 0"
  then have "cgroups (account_cpu s i) = cgroups (charge_quota s p)"
    by (simp add: account_cpu_cgroups)
  with a show "quota_used (cgroups (account_cpu s i) ! c) =
        quota_used (cgroups s ! c) + of_int (quanta s) * 1000"
    by (simp add: charge_quota_used)
next
  assume a: "cpu_queues s ! i = Some p \<and> state (mem s p) = TASK_STATE_RUNNING \<and>
    task_cgroup_id (mem s p) \<noteq> [] \<and>
    scheduler_find_cgroup s (task_cgroup_id (mem s p)) = Some c \<and>
    cpu_quota_us (cgroups s ! c) \<le> 0"
  then have "cgroups (account_cpu s i) = cgroups (charge_quota s p)"
    by (simp add: account_cpu_cgroups)
  with a show "quota_used (cgroups (account_cpu s i) ! c) = quota_used (cgroups s ! c)"
    by (simp add: charge_quota_used)
qed

theorem burst_accounting_witness:
  "state (mem (sched_burst_in 5000) 0) = TASK_STATE_RUNNING \<and>
   is_burst (mem (sched_burst_in 5000) 0) \<and>
   vruntime (mem (account_running (sched_burst_in 5000)) 0) = 0 \<and>
   vruntime (mem (account_cpu (sched_burst_in 5000) 0) 0) = 0 \<and>
   quota_used (cgroups (account_cpu (sched_burst_in 5000) 0) ! 0) = 1000 \<and>
   quota_used (cgroups (account_cpu (sched_burst_in 0) 0) ! 0) = 0"
proof -
  let ?s = "sched_burst_in 5000"
  let ?z = "sched_burst_in 0"
  have h: "cpu_queues ?s ! 0 = Some 0" "state (mem ?s 0) = TASK_STATE_RUNNING"
    "is_burst (mem ?s 0)" "task_cgroup_id (mem ?s 0) \<noteq> []"
    "scheduler_find_cgroup ?s (task_cgroup_id (mem ?s 0)) = Some 0"
    "cpu_quota_us (cgroups ?s ! 0) > 0" "quanta ?s = 1"
    "vruntime (mem ?s 0) = 0" "quota_used (cgroups ?s ! 0) = 0"
    by code_simp+
  have z: "cpu_queues ?z ! 0 = Some 0" "state (mem ?z 0) = TASK_STATE_RUNNING"
    "task_cgroup_id (mem ?z 0) \<noteq> []"
    "scheduler_find_cgroup ?z (task_cgroup_id (mem ?z 0)) = Some 0"
    "cpu_quota_us (cgroups ?z ! 0) = 0" "quota_used (cgroups ?z ! 0) = 0"
    by code_simp+
  show ?thesis
    using burst_accounting [of ?s 0 0 0] burst_accounting [of ?z 0 0 0] h z by simp
qed

subsection \<open>The vruntime charge of a running task\<close>

text \<open>
  Claim C7 says that the accounting step adds \<open>quantum * (1024 / max 1 (w * s div 1024))\<close>
  to the vruntime of every running task outside a burst whose cgroup is registered with
  shares \<open>s > 0\<close>. Two inputs show otherwise. In \<open>sched_moved_to [] 2048 0\<close> the running
  task has the empty cgroup id and a cgroup with the empty id and shares 2048 is registered;
  \<^verbatim>\<open>get_effective_task_weight\<close> looks no cgroup up for an empty id, so the charge is
  \<open>1024 / 1024\<close> and not \<open>1024 / 2048\<close>. In \<open>sched_moved_to ''big'' 2147483647 (- 1)\<close> the task
  has weight 1277 and its cgroup the largest shares an \<^verbatim>\<open>int\<close> holds; the scaled weight
  2678063102 does not fit the \<^verbatim>\<open>int\<close> that the function returns, the conversion yields
  \<open>- 1616904194\<close>, and the charge is the negative \<^verbatim>\<open>double\<close> \<^verbatim>\<open>-0x1.540153fa45b33p-21\<close>.
\<close>

theorem vruntime_delta_counterexample:
  "cpu_queues (sched_moved_to [] 2048 0) ! 0 = Some 0 \<and>
   state (mem (sched_moved_to [] 2048 0) 0) = TASK_STATE_RUNNING \<and>
   \<not> is_burst (mem (sched_moved_to [] 2048 0) 0) \<and>
   weight (mem (sched_moved_to [] 2048 0) 0) = 1024 \<and>
   map cgroup_id (cgroups (sched_moved_to [] 2048 0)) =
     [task_cgroup_id (mem (sched_moved_to [] 2048 0) 0)] \<and>
   cpu_shares (cgroups (sched_moved_to [] 2048 0) ! 0) = 2048 \<and>
   quanta (sched_moved_to [] 2048 0) = 1 \<and>
   vruntime (mem (sched_moved_to [] 2048 0) 0) = 0 \<and>
   vruntime (mem (account_cpu (sched_moved_to [] 2048 0) 0) 0) = 1 \<and>
   vruntime (mem (account_cpu (sched_moved_to [] 2048 0) 0) 0) \<noteq>
     0 + 1 * (1024 / of_int (max 1 (1024 * 2048 div 1024))) \<and>
   cpu_queues (sched_moved_to ''big'' 2147483647 (- 1)) ! 0 = Some 0 \<and>
   state (mem (sched_moved_to ''big'' 2147483647 (- 1)) 0) = TASK_STATE_RUNNING \<and>
   \<not> is_burst (mem (sched_moved_to ''big'' 2147483647 (- 1)) 0) \<and>
   weight (mem (sched_moved_to ''big'' 2147483647 (- 1)) 0) = 1277 \<and>
   scheduler_find_cgroup (sched_moved_to ''big'' 2147483647 (- 1))
     (task_cgroup_id (mem (sched_moved_to ''big'' 2147483647 (- 1)) 0)) = Some 0 \<and>
   cpu_shares (cgroups (sched_moved_to ''big'' 2147483647 (- 1)) ! 0) = 2147483647 \<and>
   get_effective_task_weight (sched_moved_to ''big'' 2147483647 (- 1))
     (mem (sched_moved_to ''big'' 2147483647 (- 1)) 0) = - 1616904194 \<and>
   vruntime (mem (sched_moved_to ''big'' 2147483647 (- 1)) 0) = 0 \<and>
   vruntime (mem (account_cpu (sched_moved_to ''big'' 2147483647 (- 1)) 0) 0) =
     - (5981434517150515 / 2 ^ 73) \<and>
   vruntime (mem (account_cpu (sched_moved_to ''big'' 2147483647 (- 1)) 0) 0) < 0 \<and>
   (0::rat) < 0 + 1 * (1024 / of_int (max 1 (1277 * 2147483647 div 1024)))"
  by code_simp

text \<open>
  Claim C7, as amended. The charge is computed in \<^verbatim>\<open>double\<close> arithmetic: for a running task
  outside a burst with vruntime \<open>v\<close> and effective weight \<open>e\<close> the accounting step of its
  CPU sets the vruntime to \<open>fl (v + fl (quantum * fl (1024 / e)))\<close>, three rounded operations.
  The effective weight is \<open>max 1 (w * s div 1024)\<close> when the task has weight \<open>w \<ge> 0\<close> and its
  non-empty cgroup id names a registered cgroup with shares \<open>s > 0\<close>, provided that number is
  below \<open>2 ^ 31\<close>; it is \<open>w\<close> when the cgroup id names no registered cgroup or is empty (for
  a weight \<open>1 \<le> w < 2 ^ 31\<close>, as every weight of the table is). The rounded charge
  \<open>fl (quantum * fl (1024 / e))\<close> differs from \<open>quantum * (1024 / e)\<close> by at most \<open>2 ^ - 51\<close>
  of it. For an effective weight of at least 1, a quantum that an \<^verbatim>\<open>int\<close> holds and a
  vruntime of at most \<open>2 ^ 1000\<close> in size, all three results are finite (at most \<open>DBL_MAX\<close>
  in size), so that they are the values the code computes.
\<close>

theorem vruntime_delta:
  "(cpu_queues s ! i = Some p \<and> state (mem s p) = TASK_STATE_RUNNING \<and>
    \<not> is_burst (mem s p) \<and> task_cgroup_id (mem s p) \<noteq> [] \<and>
    scheduler_find_cgroup s (task_cgroup_id (mem s p)) = Some c \<and>
    cpu_shares (cgroups s ! c) > 0 \<and> 0 \<le> weight (mem s p) \<and>
    weight (mem s p) * cpu_shares (cgroups s ! c) div 1024 < 2 ^ 31 \<longrightarrow>
      vruntime (mem (account_cpu s i) p) =
        fl (vruntime (mem s p) +
          fl (of_int (quanta s) *
            fl (1024 / of_int (max 1 (weight (mem s p) * cpu_shares (cgroups s ! c) div 1024)))))) \<and>
   (cpu_queues s ! i = Some p \<and> state (mem s p) = TASK_STATE_RUNNING \<and>
    \<not> is_burst (mem s p) \<and>
    (scheduler_find_cgroup s (task_cgroup_id (mem s p)) = None \<or>
     task_cgroup_id (mem s p) = []) \<and>
    1 \<le> weight (mem s p) \<and> weight (mem s p) < 2 ^ 31 \<longrightarrow>
      vruntime (mem (account_cpu s i) p) =
        fl (vruntime (mem s p) +
          fl (of_int (quanta s) * fl (1024 / of_int (weight (mem s p)))))) \<and>
   (1 \<le> e \<and> e < 2 ^ 31 \<and> 1 \<le> q \<longrightarrow>
      calc_vruntime_delta (of_int q) e = fl (of_int q * fl (1024 / of_int e)) \<and>
      \<bar>calc_vruntime_delta (of_int q) e - of_int q * (1024 / of_int e)\<bar>
        \<le> of_int q * (1024 / of_int e) / 2 ^ 51) \<and>
   (1 \<le> e \<and> \<bar>q\<bar> \<le> 2 ^ 31 \<and> \<bar>v\<bar> \<le> 2 ^ 1000 \<longrightarrow>
      \<bar>fl (1024 / of_int e)\<bar> \<le> DBL_MAX \<and>
      \<bar>calc_vruntime_delta (of_int q) e\<bar> \<le> DBL_MAX \<and>
      \<bar>fl (v + calc_vruntime_delta (of_int q) e)\<bar> \<le> DBL_MAX)"
proof (intro conjI impI)
  assume a: "cpu_queues s ! i = Some p \<and> state (mem s p) = TASK_STATE_RUNNING \<and>
    \<not> is_burst (mem s p) \<and> task_cgroup_id (mem s p) \<noteq> [] \<and>
    scheduler_find_cgroup s (task_cgroup_id (mem s p)) = Some c \<and>
    cpu_shares (cgroups s ! c) > 0 \<and> 0 \<le> weight (mem s p) \<and>
    weight (mem s p) * cpu_shares (cgroups s ! c) div 1024 < 2 ^ 31"
  then have "get_effective_task_weight s (mem s p) =
      max 1 (weight (mem s p) * cpu_shares (cgroups s ! c) div 1024)"
    by (simp add: effective_weight_registered)
  with a show "vruntime (mem (account_cpu s i) p) =
        fl (vruntime (mem s p) +
          fl (of_int (quanta s) *
            fl (1024 / of_int (max 1 (weight (mem s p) * cpu_shares (cgroups s ! c) div 1024)))))"
    by (simp add: account_cpu_vruntime calc_vruntime_delta_def NICE_0_WEIGHT_def)
next
  assume a: "cpu_queues s ! i = Some p \<and> state (mem s p) = TASK_STATE_RUNNING \<and>
    \<not> is_burst (mem s p) \<and>
    (scheduler_find_cgroup s (task_cgroup_id (mem s p)) = None \<or>
     task_cgroup_id (mem s p) = []) \<and>
    1 \<le> weight (mem s p) \<and> weight (mem s p) < 2 ^ 31"
  then have "get_effective_task_weight s (mem s p) = weight (mem s p)"
    using effective_weight_unregistered [of s "mem s p"] effective_weight_empty_id [of "mem s p" s]
    by blast
  with a show "vruntime (mem (account_cpu s i) p) =
        fl (vruntime (mem s p) +
          fl (of_int (quanta s) * fl (1024 / of_int (weight (mem s p)))))"
    by (simp add: account_cpu_vruntime calc_vruntime_delta_def NICE_0_WEIGHT_def)
next
  show "calc_vruntime_delta (of_int q) e = fl (of_int q * fl (1024 / of_int e))"
    by (simp add: calc_vruntime_delta_def NICE_0_WEIGHT_def)
next
  assume "1 \<le> e \<and> e < 2 ^ 31 \<and> 1 \<le> q"
  then show "\<bar>calc_vruntime_delta (of_int q) e - of_int q * (1024 / of_int e)\<bar>
        \<le> of_int q * (1024 / of_int e) / 2 ^ 51"
    using calc_vruntime_delta_error [of e q] by blast
next
  assume "1 \<le> e \<and> \<bar>q\<bar> \<le> 2 ^ 31 \<and> \<bar>v\<bar> \<le> 2 ^ 1000"
  then show "\<bar>fl (1024 / of_int e)\<bar> \<le> DBL_MAX"
    using vruntime_charge_finite(1) [of e q v] by blast
next
  assume "1 \<le> e \<and> \<bar>q\<bar> \<le> 2 ^ 31 \<and> \<bar>v\<bar> \<le> 2 ^ 1000"
  then show "\<bar>calc_vruntime_delta (of_int q) e\<bar> \<le> DBL_MAX"
    using vruntime_charge_finite(2) [of e q v] by blast
next
  assume "1 \<le> e \<and> \<bar>q\<bar> \<le> 2 ^ 31 \<and> \<bar>v\<bar> \<le> 2 ^ 1000"
  then show "\<bar>fl (v + calc_vruntime_delta (of_int q) e)\<bar> \<le> DBL_MAX"
    using vruntime_charge_finite(3) [of e q v] by blast
qed

theorem vruntime_delta_witness:
  "vruntime (mem (account_cpu (sched_moved_to ''Z'' 2048 1) 0) 0) = 5624007339545595 / 2 ^ 53 \<and>
   vruntime (mem (account_cpu (sched_moved_to [] 2048 1) 0) 0) = 5624007339545595 / 2 ^ 52 \<and>
   calc_vruntime_delta 1 820 = 5624007339545595 / 2 ^ 52 \<and>
   calc_vruntime_delta 1 820 \<noteq> 1024 / 820 \<and>
   \<bar>calc_vruntime_delta 1 820 - 1024 / 820\<bar> \<le> 1024 / 820 / 2 ^ 51 \<and>
   \<bar>fl (0 + calc_vruntime_delta 1 820)\<bar> \<le> DBL_MAX"
proof -
  let ?s = "sched_moved_to ''Z'' 2048 1"
  let ?u = "sched_moved_to [] 2048 1"
  have h: "cpu_queues ?s ! 0 = Some 0" "state (mem ?s 0) = TASK_STATE_RUNNING"
    "\<not> is_burst (mem ?s 0)" "task_cgroup_id (mem ?s 0) \<noteq> []"
    "scheduler_find_cgroup ?s (task_cgroup_id (mem ?s 0)) = Some 0"
    "cpu_shares (cgroups ?s ! 0) = 2048" "weight (mem ?s 0) = 820"
    "quanta ?s = 1" "vruntime (mem ?s 0) = 0"
    by code_simp+
  have g: "cpu_queues ?u ! 0 = Some 0" "state (mem ?u 0) = TASK_STATE_RUNNING"
    "\<not> is_burst (mem ?u 0)" "task_cgroup_id (mem ?u 0) = []"
    "weight (mem ?u 0) = 820" "quanta ?u = 1" "vruntime (mem ?u 0) = 0"
    by code_simp+
  have v: "fl (0 + fl (1 * fl (1024 / rat_of_int (max 1 (820 * 2048 div 1024))))) =
      5624007339545595 / 2 ^ 53"
    "fl (0 + fl (1 * fl (1024 / rat_of_int 820))) = 5624007339545595 / 2 ^ 52"
    "fl (1 * fl (1024 / 820)) = 5624007339545595 / 2 ^ 52"
    "(5624007339545595 / 2 ^ 52 :: rat) \<noteq> 1024 / 820"
    by code_simp+
  show ?thesis
    using vruntime_delta [of ?s 0 0 0 820 1 0] vruntime_delta [of ?u 0 0 0 820 1 0] h g v
    by simp
qed

subsection \<open>Queue membership after a tick\<close>

text \<open>
  Claim C2 says that after every event and every tick a task is in the runnable heap if and
  only if its state is Runnable. The second loop of \<^verbatim>\<open>scheduler_tick\<close> breaks this: when
  the task selected for a CPU differs from the task that ran there before, the previous
  task is set back to Runnable if it is Running, and it is Running exactly when an earlier
  CPU of the same tick has just selected it. In \<open>swap_run\<close> the second tick selects \<open>''B''\<close>
  (address 1) for CPU 0 and then \<open>''A''\<close> for CPU 1, where \<open>''B''\<close> ran before: at the end of
  the tick \<open>''B''\<close> occupies CPU 0, its state is Runnable, and it is not in the heap.
\<close>

theorem selected_task_left_runnable:
  "map schedule (fst swap_run) = [[''A'', ''B''], [''B'', ''A'']] \<and>
   scheduler_find_task (snd swap_run) ''B'' = Some 1 \<and>
   cpu_queues (snd swap_run) = [Some 1, Some 0] \<and>
   state (mem (snd swap_run) 1) = TASK_STATE_RUNNABLE \<and>
   1 \<notin> set (runnable_heap (snd swap_run)) \<and>
   runnable_heap (snd swap_run) = [] \<and>
   heap_index (mem (snd swap_run) 1) = - 1"
  by code_simp

subsection \<open>The latency bonus of TaskUnblock\<close>

text \<open>
  Claim C4 says that unblocking a blocked task makes it Runnable, enqueues it and sets its
  vruntime to the maximum of its current vruntime and the minimum vruntime over the runnable
  tasks minus 1. The dispatcher sets the state to Runnable before it calls
  \<^verbatim>\<open>get_min_vruntime\<close>, so the minimum already counts the task itself and the bonus is
  never applied. In \<open>sched_sleeper\<close> the blocked task \<open>''T2''\<close> (address 2) has vruntime 0
  while the other two tasks, one Running and one Runnable, have vruntime 5: the claimed
  vruntime after the event is 4, the code leaves it at 0.
\<close>

theorem unblock_bonus_counterexample:
  "scheduler_find_task sched_sleeper ''T2'' = Some 2 \<and>
   state (mem sched_sleeper 2) = TASK_STATE_BLOCKED \<and>
   vruntime (mem sched_sleeper 2) = 0 \<and>
   map (\<lambda>p. (state (mem sched_sleeper p), vruntime (mem sched_sleeper p))) (all_tasks sched_sleeper) =
     [(TASK_STATE_RUNNING, 5), (TASK_STATE_RUNNABLE, 5), (TASK_STATE_BLOCKED, 0)] \<and>
   get_min_vruntime sched_sleeper = 5 \<and>
   state (mem (snd (scheduler_process_event sched_sleeper (task_event EVENT_TASK_UNBLOCK ''T2''))) 2)
     = TASK_STATE_RUNNABLE \<and>
   2 \<in> set (runnable_heap (snd (scheduler_process_event sched_sleeper
     (task_event EVENT_TASK_UNBLOCK ''T2'')))) \<and>
   vruntime (mem (snd (scheduler_process_event sched_sleeper (task_event EVENT_TASK_UNBLOCK ''T2''))) 2)
     = 0 \<and>
   vruntime (mem (snd (scheduler_process_event sched_sleeper (task_event EVENT_TASK_UNBLOCK ''T2''))) 2)
     \<noteq> max (vruntime (mem sched_sleeper 2)) (get_min_vruntime sched_sleeper - 1)"
  by code_simp

text \<open>
  What the code does for Claim C4 on every input: a TaskUnblock event whose target exists and
  is Blocked makes the task Runnable and enqueues it, and it changes no vruntime at all. The
  minimum that the dispatcher compares with is taken after the task has been made Runnable,
  so it is never above the task's own vruntime.
\<close>

theorem unblock_applies_no_bonus:
  assumes "action e = EVENT_TASK_UNBLOCK"
    and "scheduler_find_task s (ev_task_id e) = Some p"
    and "state (mem s p) = TASK_STATE_BLOCKED"
  shows "fst (scheduler_process_event s e) = 0 \<and>
    state (mem (snd (scheduler_process_event s e)) p) = TASK_STATE_RUNNABLE \<and>
    p \<in> set (runnable_heap (snd (scheduler_process_event s e))) \<and>
    vruntime (mem (snd (scheduler_process_event s e)) q) = vruntime (mem s q)"
proof -
  let ?s1 = "upd_task s p (\<lambda>t. t\<lparr>state := TASK_STATE_RUNNABLE\<rparr>)"
  let ?m = "fold (\<lambda>p acc. min_vr_step (mem ?s1 p) acc) (all_tasks ?s1) DBL_MAX"
  have mem: "p \<in> set (all_tasks ?s1)"
    using assms(2) find_Some_iff [of "\<lambda>p. task_id (mem s p) = ev_task_id e" "all_tasks s" p]
    by (auto simp: scheduler_find_task_def)
  have le: "?m \<le> vruntime (mem ?s1 p)" "?m \<le> DBL_MAX"
    using fold_min_vr_le_member [OF mem, of "mem ?s1" DBL_MAX]
      fold_min_vr_le_init [of "mem ?s1" "all_tasks ?s1" DBL_MAX]
    by simp_all
  have "0 < DBL_MAX" by (simp add: DBL_MAX_value)
  then have "\<not> vruntime (mem ?s1 p) < get_min_vruntime ?s1 - 1"
    using le by (simp add: get_min_vruntime_def Let_def)
  then have r: "scheduler_process_event s e = (0, sched_heap_insert ?s1 p)"
    using assms by (simp add: scheduler_process_event_def Let_def)
  have "p \<in># mset (runnable_heap (sched_heap_insert ?s1 p))"
    by (simp add: mset_sched_heap_insert)
  then have "p \<in> set (runnable_heap (sched_heap_insert ?s1 p))"
    by simp
  then show ?thesis
    unfolding r by simp
qed

theorem unblock_applies_no_bonus_witness:
  "fst (scheduler_process_event sched_sleeper (task_event EVENT_TASK_UNBLOCK ''T2'')) = 0 \<and>
   state (mem (snd (scheduler_process_event sched_sleeper (task_event EVENT_TASK_UNBLOCK ''T2''))) 2)
     = TASK_STATE_RUNNABLE \<and>
   2 \<in> set (runnable_heap (snd (scheduler_process_event sched_sleeper
     (task_event EVENT_TASK_UNBLOCK ''T2'')))) \<and>
   vruntime (mem (snd (scheduler_process_event sched_sleeper (task_event EVENT_TASK_UNBLOCK ''T2''))) 2)
     = 0"
proof -
  let ?e = "task_event EVENT_TASK_UNBLOCK ''T2''"
  have h: "action ?e = EVENT_TASK_UNBLOCK" "ev_task_id ?e = ''T2''"
    by (simp_all add: task_event_def)
  have v: "scheduler_find_task sched_sleeper ''T2'' = Some 2"
    "state (mem sched_sleeper 2) = TASK_STATE_BLOCKED"
    "vruntime (mem sched_sleeper 2) = 0"
    by code_simp+
  show ?thesis
    using unblock_applies_no_bonus [OF h(1), of sched_sleeper 2 2] h(2) v by simp
qed

subsection \<open>Exclusive assignment\<close>

text \<open>
  Claim C3 says that the schedule of every tick gives different task ids to different CPUs
  unless both are idle, and calls this equivalent to no task being selected for two CPUs.
  The two are not equivalent: TaskCreate registers a second task under an id that is
  already in use, and in \<open>dup_run\<close> the first tick runs the two tasks named \<open>''T1''\<close>
  (addresses 0 and 1) on CPU 0 and CPU 1, so the schedule reads \<open>''T1''\<close> twice.
\<close>

theorem duplicate_id_schedule_counterexample:
  "map schedule (fst dup_run) = [[''T1'', ''T1'']] \<and>
   cpu_queues (snd dup_run) = [Some 0, Some 1] \<and>
   all_tasks (snd dup_run) = [0, 1]"
  by code_simp

text \<open>
  Claim C3, as amended: in every scheduler state reachable from \<^verbatim>\<open>scheduler_init\<close> by events
  and ticks, a tick leaves in every CPU slot the task whose id the schedule shows for that
  CPU, or no task where the schedule shows \<open>''idle''\<close>; no task occupies two CPU slots; and
  if the registered tasks have pairwise different ids, the schedule entries of two
  different CPUs differ unless both are \<open>''idle''\<close>.
\<close>

theorem exclusive_assignment:
  assumes "reachable s"
  shows "(\<forall>c < length (cpu_queues s).
       schedule (fst (scheduler_tick s vt)) ! c =
         (case cpu_queues (snd (scheduler_tick s vt)) ! c of
            None \<Rightarrow> ''idle''
          | Some p \<Rightarrow> task_id (mem (snd (scheduler_tick s vt)) p))) \<and>
    (\<forall>c1 < length (cpu_queues s). \<forall>c2 < length (cpu_queues s). \<forall>p. c1 \<noteq> c2 \<longrightarrow>
       cpu_queues (snd (scheduler_tick s vt)) ! c1 = Some p \<longrightarrow>
       cpu_queues (snd (scheduler_tick s vt)) ! c2 \<noteq> Some p) \<and>
    (distinct (map (\<lambda>p. task_id (mem s p)) (all_tasks s)) \<longrightarrow>
      (\<forall>c1 < length (cpu_queues s). \<forall>c2 < length (cpu_queues s). c1 \<noteq> c2 \<longrightarrow>
         schedule (fst (scheduler_tick s vt)) ! c1 \<noteq> schedule (fst (scheduler_tick s vt)) ! c2 \<or>
         (schedule (fst (scheduler_tick s vt)) ! c1 = ''idle'' \<and>
          schedule (fst (scheduler_tick s vt)) ! c2 = ''idle'')))"
proof -
  let ?n = "length (cpu_queues s)"
  let ?t = "fst (scheduler_tick s vt)"
  let ?s' = "snd (scheduler_tick s vt)"
  have "distinct (all_tasks s)"
    using reachable_registry_ok [OF assms] by (simp add: registry_ok_def)
  note sel = tick_selection [OF this, of vt]
  have sch: "schedule ?t ! c = slot_id ?s' c" if "c < ?n" for c
    using sel that by blast
  have excl: "slots_exclusive ?s' ?n" using sel by blast
  have reg: "p \<in> set (all_tasks s)" if "c < ?n" "cpu_queues ?s' ! c = Some p" for c p
    using sel that by blast
  have ids: "task_id (mem ?s' p) = task_id (mem s p)" for p
    using same_ids_tick [of s vt] by (simp add: same_ids_def)
  have differ: "schedule ?t ! c1 \<noteq> schedule ?t ! c2 \<or>
      (schedule ?t ! c1 = ''idle'' \<and> schedule ?t ! c2 = ''idle'')"
    if dist: "distinct (map (\<lambda>p. task_id (mem s p)) (all_tasks s))"
      and c: "c1 < ?n" "c2 < ?n" "c1 \<noteq> c2" for c1 c2
  proof (cases "cpu_queues ?s' ! c1")
    case None
    then have "schedule ?t ! c1 = ''idle''" using sch [OF c(1)] by (simp add: slot_id_def)
    then show ?thesis by auto
  next
    case s1: (Some p1)
    show ?thesis
    proof (cases "cpu_queues ?s' ! c2")
      case None
      then have "schedule ?t ! c2 = ''idle''" using sch [OF c(2)] by (simp add: slot_id_def)
      then show ?thesis by auto
    next
      case s2: (Some p2)
      have ne: "p1 \<noteq> p2"
        using excl c s1 s2 unfolding slots_exclusive_def by blast
      have "inj_on (\<lambda>p. task_id (mem s p)) (set (all_tasks s))"
        using dist by (simp add: distinct_map)
      then have "task_id (mem s p1) \<noteq> task_id (mem s p2)"
        using ne reg [OF c(1) s1] reg [OF c(2) s2] by (auto dest: inj_onD)
      then show ?thesis
        using sch [OF c(1)] sch [OF c(2)] s1 s2 ids by (simp add: slot_id_def)
    qed
  qed
  have first: "\<forall>c < ?n. schedule ?t ! c =
      (case cpu_queues ?s' ! c of None \<Rightarrow> ''idle'' | Some p \<Rightarrow> task_id (mem ?s' p))"
    using sch by (simp add: slot_id_def)
  have second: "\<forall>c1 < ?n. \<forall>c2 < ?n. \<forall>p. c1 \<noteq> c2 \<longrightarrow>
       cpu_queues ?s' ! c1 = Some p \<longrightarrow> cpu_queues ?s' ! c2 \<noteq> Some p"
    using excl unfolding slots_exclusive_def by blast
  show ?thesis
    using first second differ by blast
qed

theorem exclusive_assignment_witness:
  "schedule (fst (scheduler_tick (snd swap_run) 2)) = [''B'', ''A''] \<and>
   cpu_queues (snd (scheduler_tick (snd swap_run) 2)) = [Some 1, Some 0] \<and>
   schedule (fst (scheduler_tick (snd swap_run) 2)) ! 0 \<noteq>
     schedule (fst (scheduler_tick (snd swap_run) 2)) ! 1"
proof -
  have r: "reachable (snd swap_run)"
    unfolding swap_run_def by (rule reachable_run_frames) (rule reachable.init)
  have v: "schedule (fst (scheduler_tick (snd swap_run) 2)) = [''B'', ''A'']"
    "cpu_queues (snd (scheduler_tick (snd swap_run) 2)) = [Some 1, Some 0]"
    "length (cpu_queues (snd swap_run)) = 2"
    "distinct (map (\<lambda>p. task_id (mem (snd swap_run) p)) (all_tasks (snd swap_run)))"
    by code_simp+
  show ?thesis
    using exclusive_assignment [OF r, of 2] v by simp
qed

subsection \<open>The quota bound\<close>

text \<open>
  Claim C1 says that the runtime accounted to a cgroup with a finite quota never exceeds the
  quota within a period, because a candidate is admitted only if the used runtime, the
  runtime planned on earlier CPUs of the tick and one tick's runtime fit into the quota.
  The admission rule holds, but the charge is made one tick later, to the cgroup the task
  belongs to by then. In \<open>move_run\<close> the first tick admits \<open>''T1''\<close> to \<open>''G''\<close> (which uses up
  the quota of 50000 us) and runs \<open>''T2''\<close> outside any cgroup; \<open>''T2''\<close> is then moved into
  \<open>''G''\<close>, and the second tick, still in the first period, charges both tasks to \<open>''G''\<close>:
  100000 us are accounted against a quota of 50000 us.
\<close>

theorem quota_exceeded_counterexample:
  "map schedule (fst move_run) = [[''T1'', ''T2''], [''idle'', ''idle'']] \<and>
   map cgroup_id (cgroups (snd move_run)) = [''G''] \<and>
   cpu_quota_us (cgroups (snd move_run) ! 0) = 50000 \<and>
   cpu_period_us (cgroups (snd move_run) ! 0) = 100000 \<and>
   period_start_vtime (cgroups (snd move_run) ! 0) = 0 \<and>
   quota_used (cgroups (snd move_run) ! 0) = 100000"
  by code_simp

text \<open>
  Claim C1, as amended. A candidate whose non-empty cgroup id names a registered cgroup with
  a finite quota is selected only if the used runtime plus the runtime planned for the
  cgroup plus one tick's runtime does not exceed the quota. In every scheduler state
  reachable from \<^verbatim>\<open>scheduler_init\<close> by events and ticks, at the end of a tick every such
  cgroup that was given a CPU satisfies: used runtime plus one tick's runtime per CPU given
  to it does not exceed the quota. A reachable scheduler that is within its quotas (in the
  sense of \<open>quota_ok\<close>) is within its quotas after a tick and after every event other than
  TaskMoveCgroup, CgroupCreate, CgroupModify and CgroupDelete; hence through every run of
  frames that hold no such event the used runtime of every cgroup with a finite quota
  stays within the quota.
\<close>

theorem quota_commit:
  assumes "reachable s"
  shows "(fst (pick_task_for_cpu s0 cpu pl tk) = Some p \<longrightarrow>
      task_cgroup_id (mem s0 p) \<noteq> [] \<longrightarrow>
      scheduler_find_cgroup s0 (task_cgroup_id (mem s0 p)) = Some g \<longrightarrow>
      cpu_quota_us (cgroups s0 ! g) \<ge> 0 \<longrightarrow>
        quota_used (cgroups s0 ! g) + get_planned_runtime_for_cgroup pl g + tk
          \<le> of_int (cpu_quota_us (cgroups s0 ! g))) \<and>
    (\<forall>c < length (cgroups s).
       cpu_quota_us (cgroups (snd (scheduler_tick s vt)) ! c) \<ge> 0 \<longrightarrow>
       running_in (snd (scheduler_tick s vt)) (length (cpu_queues s)) c > 0 \<longrightarrow>
         quota_used (cgroups (snd (scheduler_tick s vt)) ! c) +
           of_nat (running_in (snd (scheduler_tick s vt)) (length (cpu_queues s)) c) *
             tick_runtime s
           \<le> of_int (cpu_quota_us (cgroups (snd (scheduler_tick s vt)) ! c))) \<and>
    (quota_ok s \<longrightarrow> quota_ok (snd (scheduler_tick s vt))) \<and>
    (quota_ok s \<longrightarrow>
     action e \<noteq> EVENT_TASK_MOVE_CGROUP \<longrightarrow> action e \<noteq> EVENT_CGROUP_CREATE \<longrightarrow>
     action e \<noteq> EVENT_CGROUP_MODIFY \<longrightarrow> action e \<noteq> EVENT_CGROUP_DELETE \<longrightarrow>
       quota_ok (snd (scheduler_process_event s e))) \<and>
    (quota_ok s \<longrightarrow>
     (\<forall>tf \<in> set tfs. \<forall>e \<in> set (events tf).
        action e \<noteq> EVENT_TASK_MOVE_CGROUP \<and> action e \<noteq> EVENT_CGROUP_CREATE \<and>
        action e \<noteq> EVENT_CGROUP_MODIFY \<and> action e \<noteq> EVENT_CGROUP_DELETE) \<longrightarrow>
       quota_ok (snd (run_frames s tfs)) \<and>
       (\<forall>c < length (cgroups (snd (run_frames s tfs))).
          0 \<le> cpu_quota_us (cgroups (snd (run_frames s tfs)) ! c) \<longrightarrow>
            quota_used (cgroups (snd (run_frames s tfs)) ! c)
              \<le> of_int (cpu_quota_us (cgroups (snd (run_frames s tfs)) ! c))))"
proof -
  have d: "distinct (all_tasks s)"
    using reachable_registry_ok [OF assms] by (simp add: registry_ok_def)
  have b: "length (cgroups s) \<le> MAX_CGROUPS"
    using assms by (rule reachable_cgroups_bound)
  have 1: "quota_used (cgroups s0 ! g) + get_planned_runtime_for_cgroup pl g + tk
          \<le> of_int (cpu_quota_us (cgroups s0 ! g))"
    if "fst (pick_task_for_cpu s0 cpu pl tk) = Some p" "task_cgroup_id (mem s0 p) \<noteq> []"
      "scheduler_find_cgroup s0 (task_cgroup_id (mem s0 p)) = Some g"
      "cpu_quota_us (cgroups s0 ! g) \<ge> 0"
  proof -
    have "\<not> quota_defers s0 pl tk (mem s0 p)"
      using pick_task_for_cpu_admitted [OF that(1)] by simp
    then show ?thesis
      using that(2-4) by (rule admitted_within_quota)
  qed
  have 4: "quota_ok (snd (scheduler_process_event s e))"
    if "quota_ok s" "action e \<noteq> EVENT_TASK_MOVE_CGROUP" "action e \<noteq> EVENT_CGROUP_CREATE"
      "action e \<noteq> EVENT_CGROUP_MODIFY" "action e \<noteq> EVENT_CGROUP_DELETE"
    using assms that by (simp add: event_quota_ok quota_safe_def)
  have 5: "quota_ok (snd (run_frames s tfs))"
    if "quota_ok s" "\<forall>tf \<in> set tfs. \<forall>e \<in> set (events tf).
        action e \<noteq> EVENT_TASK_MOVE_CGROUP \<and> action e \<noteq> EVENT_CGROUP_CREATE \<and>
        action e \<noteq> EVENT_CGROUP_MODIFY \<and> action e \<noteq> EVENT_CGROUP_DELETE"
    using assms that by (simp add: run_frames_quota_ok quota_safe_def)
  have 6: "\<forall>c < length (cgroups (snd (run_frames s tfs))).
          0 \<le> cpu_quota_us (cgroups (snd (run_frames s tfs)) ! c) \<longrightarrow>
            quota_used (cgroups (snd (run_frames s tfs)) ! c)
              \<le> of_int (cpu_quota_us (cgroups (snd (run_frames s tfs)) ! c))"
    if "quota_ok (snd (run_frames s tfs))"
    using that by (simp add: quota_ok_bound)
  show ?thesis
    using 1 tick_commit [OF d b] tick_quota_ok [OF d b] 4 5 6 by blast
qed

theorem quota_commit_witness:
  "fst (pick_task_for_cpu quota_sched 0 [] 50000) = Some 0 \<and>
   quota_used (cgroups quota_sched ! 0) + get_planned_runtime_for_cgroup [] 0 + 50000
     \<le> of_int (cpu_quota_us (cgroups quota_sched ! 0)) \<and>
   schedule (fst (scheduler_tick quota_sched 0)) = [''T1'', ''idle''] \<and>
   running_in (snd (scheduler_tick quota_sched 0)) 2 0 = 1 \<and>
   quota_used (cgroups (snd (scheduler_tick quota_sched 0)) ! 0) + tick_runtime quota_sched
     \<le> 50000 \<and>
   quota_ok (snd (scheduler_tick quota_sched 0)) \<and>
   quota_ok (snd (scheduler_process_event quota_sched (task_event EVENT_TASK_BLOCK ''T1''))) \<and>
   map schedule (fst (run_frames quota_sched nice_frames)) =
     [[''T1'', ''idle''], [''idle'', ''idle'']] \<and>
   quota_ok (snd (run_frames quota_sched nice_frames)) \<and>
   quota_used (cgroups (snd (run_frames quota_sched nice_frames)) ! 0) = 50000 \<and>
   quota_used (cgroups (snd (run_frames quota_sched nice_frames)) ! 0)
     \<le> of_int (cpu_quota_us (cgroups (snd (run_frames quota_sched nice_frames)) ! 0))"
proof -
  let ?e = "task_event EVENT_TASK_BLOCK ''T1''"
  have r: "reachable quota_sched"
    unfolding quota_sched_def by (rule reachable_process_events) (rule reachable.init)
  have v: "fst (pick_task_for_cpu quota_sched 0 [] 50000) = Some 0"
    "task_cgroup_id (mem quota_sched 0) = ''G''"
    "scheduler_find_cgroup quota_sched ''G'' = Some 0"
    "cpu_quota_us (cgroups quota_sched ! 0) = 50000"
    "length (cgroups quota_sched) = 1" "length (cpu_queues quota_sched) = 2"
    "schedule (fst (scheduler_tick quota_sched 0)) = [''T1'', ''idle'']"
    "cpu_quota_us (cgroups (snd (scheduler_tick quota_sched 0)) ! 0) = 50000"
    "running_in (snd (scheduler_tick quota_sched 0)) 2 0 = 1"
    "quota_ok quota_sched"
    "map schedule (fst (run_frames quota_sched nice_frames)) =
       [[''T1'', ''idle''], [''idle'', ''idle'']]"
    "length (cgroups (snd (run_frames quota_sched nice_frames))) = 1"
    "cpu_quota_us (cgroups (snd (run_frames quota_sched nice_frames)) ! 0) = 50000"
    "quota_used (cgroups (snd (run_frames quota_sched nice_frames)) ! 0) = 50000"
    by code_simp+
  have a: "action ?e = EVENT_TASK_BLOCK"
    by (simp add: task_event_def)
  have f: "\<forall>tf \<in> set nice_frames. \<forall>e \<in> set (events tf).
      action e \<noteq> EVENT_TASK_MOVE_CGROUP \<and> action e \<noteq> EVENT_CGROUP_CREATE \<and>
      action e \<noteq> EVENT_CGROUP_MODIFY \<and> action e \<noteq> EVENT_CGROUP_DELETE"
    by (simp add: nice_frames_def frame_def task_event_def)
  show ?thesis
    using quota_commit [OF r, of quota_sched 0 "[]" 50000 0 0 0 ?e nice_frames] v a f by simp
qed

end
